theory Spec2Isabelle
  imports Main "HOL-Library.Word"
begin

unbundle bit_operations_syntax

section \<open>Data model\<close>

text \<open>
  A Go \<open>byte\<close> is an 8-bit word and a \<open>uint64\<close> a 64-bit word: their shifts and
  subtractions wrap as the words of HOL-Library.Word do. Go's \<open>uint\<close> (bit counts, bit
  indices and slice lengths) is modelled as \<open>nat\<close>: a count of stored bits is bounded by
  eight times the size of an allocated slice, far below the range of \<open>uint\<close>, and the
  places where a \<open>uint\<close> subtraction could wrap are written out. An argument of a call is
  any \<open>uint\<close> the caller likes, so the sum \<open>index+size\<close> that \<open>BitsAt\<close> forms from its
  arguments before any check is the wrapping sum \<open>uint_add\<close> of a 64-bit \<open>uint\<close>, and the
  conversion \<open>int(nbits)\<close> of \<open>AppendBigInt\<close> is the signed reading of the 64 bits.
  (\<open>AppendBits\<close> adds its argument \<open>size\<close> to \<open>nextBitIndex\<close> after it has found \<open>bits\<close>
  long enough for \<open>size\<close> bits, and \<open>AppendBigInt\<close> adds 7 to \<open>nbits\<close> after the check
  that leaves \<open>nbits\<close> below \<open>2^63\<close>.)

  A slice is the list of its bytes; \<open>backingStore\<close> is \<open>None\<close> for the nil slice, which
  the growth code of \<open>AppendBits\<close> tells apart from an allocated slice of length 0.
\<close>

type_synonym byte = "8 word"
type_synonym uint64 = "64 word"

record BitStream =
  nextBitIndex :: nat
  backingStore :: "byte list option"

text \<open>The zero value \<open>BitStream{}\<close>.\<close>

definition emptyBitStream :: BitStream where
  "emptyBitStream = \<lparr>nextBitIndex = 0, backingStore = None\<rparr>"

text \<open>
  Every \<open>panic\<close> of the source, and the run-time panic of an index out of range.
\<close>

datatype panic =
    TooFewBytes             \<comment> \<open>AppendBits: "Too few bytes (..) for .. bits"\<close>
  | BitNotZeroOrOne         \<comment> \<open>AppendBit: "Bit must be 0 or 1"\<close>
  | SizeOutOfRange          \<comment> \<open>AppendUint: "Size out of range"\<close>
  | ValueLargerThanSize     \<comment> \<open>AppendUint: ".. is larger than .. bits"\<close>
  | IndexOutOfBounds        \<comment> \<open>BitAt, BitsAt: "Index .. is out of bounds"\<close>
  | SizeTooBig              \<comment> \<open>UintAt: "Size is too big"\<close>
  | NotMultipleOfFive       \<comment> \<open>MarshalBase32: "Bitstream size must be a multiple of 5"\<close>
  | ValueTooBigForBits      \<comment> \<open>AppendBigInt: "Value is too big for .. bits"\<close>
  | FillBytesTooSmall       \<comment> \<open>math/big FillBytes: the buffer is too small for the value\<close>
  | IndexOutOfRange         \<comment> \<open>run-time panic: slice index out of range\<close>
  | MakeSliceLenOutOfRange  \<comment> \<open>run-time panic: "makeslice: len out of range"\<close>

text \<open>The error value returned by \<open>UnmarshalBase32\<close>, with the offending character.\<close>

datatype base32_error = InvalidBase32Character char

text \<open>
  A mutating method returns \<open>None\<close> when it never returns, and otherwise the way it ended
  (\<open>None\<close>: normally, \<open>Some p\<close>: by panic \<open>p\<close>) together with the receiver as it is at
  that moment.
\<close>

type_synonym run = "(panic option \<times> BitStream) option"

definition Size :: "BitStream \<Rightarrow> nat" where
  "Size s = nextBitIndex s"

text \<open>The sum of two \<open>uint\<close> values, and the conversion \<open>int(n)\<close> of a \<open>uint\<close>.\<close>

definition uint_add :: "nat \<Rightarrow> nat \<Rightarrow> nat" where
  "uint_add a b = (a + b) mod 2 ^ 64"

definition int_of_uint :: "nat \<Rightarrow> int" where
  "int_of_uint n = sint (word_of_nat n :: 64 word)"

text \<open>
  \<open>make([]byte, n)\<close> with a length that an argument of the caller decides (\<open>BitsAt\<close>,
  \<open>AppendBigInt\<close>): the run time of Go refuses a length above its allocation limit
  \<open>maxAlloc\<close>, \<open>2^48\<close> bytes on linux/amd64, with the panic "makeslice: len out of range".
  The other slices of the program are 8 or 16 bytes long, or at most twice as long as the
  data that the program holds when it makes them; they are allocated with \<open>replicate\<close>:
  the model has memory for them.
\<close>

definition maxAlloc :: nat where
  "maxAlloc = 2 ^ 48"

definition make_bytes :: "nat \<Rightarrow> panic + byte list" where
  "make_bytes n = (if maxAlloc < n then Inl MakeSliceLenOutOfRange else Inr (replicate n 0))"

definition bytesNeededForBits :: "nat \<Rightarrow> nat" where
  "bytesNeededForBits bitcount =
     (let result = bitcount div 8
      in if bitcount mod 8 \<noteq> 0 then result + 1 else result)"

text \<open>
  \<open>b >> (8 - n)\<close>: for \<open>n > 8\<close> the \<open>uint\<close> difference wraps to a shift count of at least 8,
  which clears a byte.
\<close>

definition topNBits :: "byte \<Rightarrow> nat \<Rightarrow> byte" where
  "topNBits b n = (if n \<le> 8 then drop_bit (8 - n) b else 0)"

definition bottomNBits :: "byte \<Rightarrow> nat \<Rightarrow> byte" where
  "bottomNBits b n = b AND (push_bit n 1 - 1)"

section \<open>Appending bits\<close>

text \<open>The growth loop \<open>for nextSize <= neededSize { nextSize *= 2 }\<close>.\<close>

partial_function (option) grow :: "nat \<Rightarrow> nat \<Rightarrow> nat option" where
  "grow nextSize neededSize =
     (if nextSize \<le> neededSize then grow (nextSize * 2) neededSize else Some nextSize)"

declare grow.simps [code]

text \<open>The builtin \<open>copy(dst, src)\<close>: the first \<open>min (len dst) (len src)\<close> bytes are overwritten.\<close>

definition copy_bytes :: "byte list \<Rightarrow> byte list \<Rightarrow> byte list" where
  "copy_bytes dst src =
     (let n = min (length dst) (length src) in take n src @ drop n dst)"

text \<open>The bytes of a slice; the nil slice has none.\<close>

definition slice_bytes :: "byte list option \<Rightarrow> byte list" where
  "slice_bytes sl = (case sl of None \<Rightarrow> [] | Some st \<Rightarrow> st)"

text \<open>Lines 84 to 95 of \<open>AppendBits\<close>: ensure there is enough size.\<close>

definition ensureSize :: "nat \<Rightarrow> BitStream \<Rightarrow> BitStream option" where
  "ensureSize neededSize s =
     (if backingStore s = None \<or> length (slice_bytes (backingStore s)) \<le> neededSize then
        (case grow (if backingStore s \<noteq> None then length (slice_bytes (backingStore s)) else 16)
                   neededSize of
           None \<Rightarrow> None
         | Some nextSize \<Rightarrow>
             Some (s\<lparr>backingStore :=
                      Some (copy_bytes (replicate nextSize 0) (slice_bytes (backingStore s)))\<rparr>))
      else Some s)"

text \<open>\<open>s.backingStore[i] |= v\<close>; \<open>None\<close> is the index out of range.\<close>

definition or_at :: "nat \<Rightarrow> byte \<Rightarrow> BitStream \<Rightarrow> BitStream option" where
  "or_at i v s =
     (let st = slice_bytes (backingStore s)
      in if i < length st then Some (s\<lparr>backingStore := Some (st[i := st ! i OR v])\<rparr>)
         else None)"

text \<open>The loop over the full source bytes, lines 101 to 109.\<close>

fun appendFullBytes :: "nat \<Rightarrow> nat \<Rightarrow> byte list \<Rightarrow> BitStream \<Rightarrow> panic option \<times> BitStream" where
  "appendFullBytes offset bitsLeftInByte [] s = (None, s)"
| "appendFullBytes offset bitsLeftInByte (bt # bts) s =
     (let nextByteIndex = nextBitIndex s div 8;
          top = topNBits bt bitsLeftInByte;
          bottom = bottomNBits bt offset
      in case or_at nextByteIndex top s of
           None \<Rightarrow> (Some IndexOutOfRange, s)
         | Some s1 \<Rightarrow>
             (case or_at (nextByteIndex + 1) (push_bit bitsLeftInByte bottom) s1 of
                None \<Rightarrow> (Some IndexOutOfRange, s1)
              | Some s2 \<Rightarrow>
                  appendFullBytes offset bitsLeftInByte bts
                    (s2\<lparr>nextBitIndex := nextBitIndex s2 + 8\<rparr>)))"

text \<open>
  The last, partial source byte, lines 112 to 130. \<open>topCount\<close> is at most
  \<open>bitsLeftInByte = 8 - nextBitIndex mod 8\<close>, so the \<open>uint\<close> difference \<open>shiftAmount\<close>
  does not wrap. The shift count \<open>8 - byte(topCount) - byte(bottomCount)\<close> is computed
  on bytes.
\<close>

definition appendLastByte :: "nat \<Rightarrow> nat \<Rightarrow> byte \<Rightarrow> BitStream \<Rightarrow> panic option \<times> BitStream" where
  "appendLastByte sz bitsLeftInByte lastByte s =
     (let trailingBits = sz mod 8;
          topCount = min trailingBits bitsLeftInByte;
          bottomCount = trailingBits - topCount;
          nextByteIndex = nextBitIndex s div 8;
          top = topNBits lastByte topCount;
          shiftAmount = 8 - (nextBitIndex s mod 8) - topCount;
          shiftedTop = push_bit shiftAmount top
      in case or_at nextByteIndex shiftedTop s of
           None \<Rightarrow> (Some IndexOutOfRange, s)
         | Some s1 \<Rightarrow>
             (let s2 = s1\<lparr>nextBitIndex := nextBitIndex s1 + topCount\<rparr>;
                  nextByteIndex = nextBitIndex s2 div 8
              in if 0 < bottomCount then
                   (let bottom = bottomNBits
                          (drop_bit (unat (8 - of_nat topCount - of_nat bottomCount :: byte)) lastByte)
                          bottomCount;
                        shiftedBottom = push_bit (8 - bottomCount) bottom
                    in case or_at nextByteIndex shiftedBottom s2 of
                         None \<Rightarrow> (Some IndexOutOfRange, s2)
                       | Some s3 \<Rightarrow> (None, s3\<lparr>nextBitIndex := nextBitIndex s3 + bottomCount\<rparr>))
                 else (None, s2)))"

text \<open>
  \<open>AppendBits\<close>. After the first check \<open>bits\<close> has at least \<open>size div 8\<close> bytes, and one
  more when \<open>size mod 8 \<noteq> 0\<close>, so \<open>bits[:numFullBytes]\<close> and \<open>bits[numFullBytes]\<close> are in
  range. \<open>bits\<close> is the content of the argument when the call is made.
\<close>

definition AppendBits :: "nat \<Rightarrow> byte list \<Rightarrow> BitStream \<Rightarrow> run" where
  "AppendBits sz bits s =
     (if length bits < bytesNeededForBits sz then Some (Some TooFewBytes, s)
      else
        (let neededSize = bytesNeededForBits (nextBitIndex s + sz)
         in case ensureSize neededSize s of
              None \<Rightarrow> None
            | Some s1 \<Rightarrow>
                (let numFullBytes = sz div 8;
                     offset = nextBitIndex s1 mod 8;
                     bitsLeftInByte = 8 - offset
                 in case appendFullBytes offset bitsLeftInByte (take numFullBytes bits) s1 of
                      (Some p, s2) \<Rightarrow> Some (Some p, s2)
                    | (None, s2) \<Rightarrow>
                        if sz mod 8 \<noteq> 0
                        then Some (appendLastByte sz bitsLeftInByte (bits ! numFullBytes) s2)
                        else Some (None, s2))))"

definition AppendBit :: "byte \<Rightarrow> BitStream \<Rightarrow> run" where
  "AppendBit b s =
     (if b \<noteq> 0 \<and> b \<noteq> 1 then Some (Some BitNotZeroOrOne, s)
      else if b = 0 then AppendBits 1 [0] s
      else AppendBits 1 [128] s)"

text \<open>
  \<open>binary.BigEndian.PutUint64\<close> and \<open>binary.BigEndian.Uint64\<close> of the Go library:
  \<open>PutUint64\<close> fills the 8 bytes of the fresh buffer with \<open>v >> 56\<close>, \<open>v >> 48\<close>, ...,
  \<open>v\<close>; \<open>Uint64\<close> reads 8 bytes, the first the most significant, and panics on a
  shorter slice.
\<close>

definition PutUint64 :: "uint64 \<Rightarrow> byte list" where
  "PutUint64 v = map (\<lambda>k. ucast (drop_bit (56 - 8 * k) v)) [0..<8]"

definition Uint64 :: "byte list \<Rightarrow> panic + uint64" where
  "Uint64 b =
     (if length b < 8 then Inl IndexOutOfRange
      else Inr (foldl (\<lambda>acc x. push_bit 8 acc OR ucast x) 0 (take 8 b)))"

definition AppendUint64 :: "uint64 \<Rightarrow> BitStream \<Rightarrow> run" where
  "AppendUint64 v s = AppendBits 64 (PutUint64 v) s"

definition AppendUint :: "uint64 \<Rightarrow> nat \<Rightarrow> BitStream \<Rightarrow> run" where
  "AppendUint v sz s =
     (if sz > 64 then Some (Some SizeOutOfRange, s)
      else
        (let mask = push_bit sz 1 - 1
         in if v AND mask \<noteq> v then Some (Some ValueLargerThanSize, s)
            else
              (let shifted = push_bit (64 - sz) v
               in AppendBits sz (PutUint64 shifted) s)))"

section \<open>Reading bits\<close>

definition BitAt :: "BitStream \<Rightarrow> nat \<Rightarrow> panic + byte" where
  "BitAt s index =
     (if index \<ge> nextBitIndex s then Inl IndexOutOfBounds
      else
        (let byteIndex = index div 8;
             bitIndex = index mod 8;
             st = slice_bytes (backingStore s)
         in if byteIndex < length st
            then Inr (drop_bit (7 - bitIndex) (st ! byteIndex) AND 1)
            else Inl IndexOutOfRange))"

text \<open>The loop of \<open>BitsAt\<close>; \<open>shift\<close> is a Go \<open>int\<close> that runs from 7 down to -1.\<close>

function BitsAt_loop ::
  "BitStream \<Rightarrow> nat \<Rightarrow> nat \<Rightarrow> nat \<Rightarrow> nat \<Rightarrow> int \<Rightarrow> byte list \<Rightarrow> panic + byte list" where
  "BitsAt_loop s index sz i byteIndex shift result =
     (if i < sz then
        (let byteIndex1 = (if shift < 0 then byteIndex + 1 else byteIndex);
             shift1 = (if shift < 0 then 7 else shift)
         in case BitAt s (index + i) of
              Inl p \<Rightarrow> Inl p
            | Inr b \<Rightarrow>
                if byteIndex1 < length result
                then BitsAt_loop s index sz (i + 1) byteIndex1 (shift1 - 1)
                       (result[byteIndex1 := result ! byteIndex1 OR push_bit (nat shift1) b])
                else Inl IndexOutOfRange)
      else Inr result)"
  by pat_completeness auto
termination
  by (relation "measure (\<lambda>(s, index, sz, i, byteIndex, shift, result). sz - i)") auto

declare BitsAt_loop.simps [simp del]

text \<open>
  \<open>BitsAt\<close>. The sum of the check wraps. In the loop \<open>index + i\<close> does not: it is
  \<open>index\<close>, or one more than an index below \<open>nextBitIndex\<close> that \<open>BitAt\<close> has accepted.
\<close>

definition BitsAt :: "BitStream \<Rightarrow> nat \<Rightarrow> nat \<Rightarrow> panic + byte list" where
  "BitsAt s index sz =
     (if uint_add index sz > nextBitIndex s then Inl IndexOutOfBounds
      else
        (case make_bytes (bytesNeededForBits sz) of
           Inl p \<Rightarrow> Inl p
         | Inr result \<Rightarrow> BitsAt_loop s index sz 0 0 7 result))"

definition Uint64At :: "BitStream \<Rightarrow> nat \<Rightarrow> panic + uint64" where
  "Uint64At s index =
     (case BitsAt s index 64 of Inl p \<Rightarrow> Inl p | Inr data \<Rightarrow> Uint64 data)"

definition UintAt :: "BitStream \<Rightarrow> nat \<Rightarrow> nat \<Rightarrow> panic + uint64" where
  "UintAt s index sz =
     (if sz > 64 then Inl SizeTooBig
      else
        (case BitsAt s index sz of
           Inl p \<Rightarrow> Inl p
         | Inr data \<Rightarrow>
             (let uintBuffer = copy_bytes (replicate 8 0) data
              in case Uint64 uintBuffer of
                   Inl p \<Rightarrow> Inl p
                 | Inr w \<Rightarrow> Inr (drop_bit (64 - sz) w))))"

section \<open>Derived operations\<close>

definition AppendBitstream :: "BitStream \<Rightarrow> BitStream \<Rightarrow> run" where
  "AppendBitstream other s = AppendBits (Size other) (slice_bytes (backingStore other)) s"

text \<open>
  \<open>Concat\<close> builds a new stream and only reads its two arguments: \<open>copy\<close> reads the
  store of \<open>s\<close>, and \<open>other.backingStore\<close> is the source argument of \<open>AppendBits\<close>; every
  write goes to the fresh slice of \<open>result\<close>. It returns the new stream, or the panic that
  ended it, or \<open>None\<close> when it does not return.
\<close>

definition Concat :: "BitStream \<Rightarrow> BitStream \<Rightarrow> (panic + BitStream) option" where
  "Concat s other =
     (let result = emptyBitStream;
          result = result\<lparr>backingStore :=
                     Some (copy_bytes (replicate (bytesNeededForBits (Size s + Size other)) 0)
                             (slice_bytes (backingStore s)))\<rparr>;
          result = result\<lparr>nextBitIndex := nextBitIndex s\<rparr>
      in case AppendBitstream other result of
           None \<Rightarrow> None
         | Some (Some p, _) \<Rightarrow> Some (Inl p)
         | Some (None, r) \<Rightarrow> Some (Inr r))"

definition ToBytes :: "BitStream \<Rightarrow> byte list" where
  "ToBytes s =
     (let sz = Size s
      in copy_bytes (replicate (bytesNeededForBits sz) 0) (slice_bytes (backingStore s)))"

definition BitstreamAt :: "BitStream \<Rightarrow> nat \<Rightarrow> nat \<Rightarrow> (panic + BitStream) option" where
  "BitstreamAt s index sz =
     (case BitsAt s index sz of
        Inl p \<Rightarrow> Some (Inl p)
      | Inr bits \<Rightarrow>
          (case AppendBits sz bits emptyBitStream of
             None \<Rightarrow> None
           | Some (Some p, _) \<Rightarrow> Some (Inl p)
           | Some (None, r) \<Rightarrow> Some (Inr r)))"

section \<open>Base32\<close>

definition base32Alphabet :: string where
  "base32Alphabet = ''ABCDEFGHIJKLMNOPQRSTUVWXYZ234567''"

text \<open>The reverse map that \<open>ensureBase32Reversed\<close> builds, once, from the alphabet.\<close>

definition base32Reversed :: "char \<rightharpoonup> byte" where
  "base32Reversed =
     fold (\<lambda>i m. m(base32Alphabet ! i \<mapsto> of_nat i)) [0..<length base32Alphabet] Map.empty"

function MarshalBase32_loop :: "BitStream \<Rightarrow> nat \<Rightarrow> string \<Rightarrow> panic + string" where
  "MarshalBase32_loop s i result =
     (if i < nextBitIndex s then
        (case UintAt s i 5 of
           Inl p \<Rightarrow> Inl p
         | Inr v \<Rightarrow>
             if unat v < length base32Alphabet
             then MarshalBase32_loop s (i + 5) (result @ [base32Alphabet ! unat v])
             else Inl IndexOutOfRange)
      else Inr result)"
  by pat_completeness auto
termination
  by (relation "measure (\<lambda>(s, i, result). nextBitIndex s - i)") auto

declare MarshalBase32_loop.simps [simp del]

definition MarshalBase32 :: "BitStream \<Rightarrow> panic + string" where
  "MarshalBase32 s =
     (if Size s mod 5 \<noteq> 0 then Inl NotMultipleOfFive else MarshalBase32_loop s 0 [])"

text \<open>
  \<open>UnmarshalBase32\<close> returns an error value, or ends by a panic of \<open>AppendUint\<close>; the
  receiver is returned as the call leaves it.
\<close>

fun UnmarshalBase32_loop ::
  "string \<Rightarrow> BitStream \<Rightarrow> ((panic + base32_error option) \<times> BitStream) option" where
  "UnmarshalBase32_loop [] s = Some (Inr None, s)"
| "UnmarshalBase32_loop (c # cs) s =
     (case base32Reversed c of
        None \<Rightarrow> Some (Inr (Some (InvalidBase32Character c)), s)
      | Some v \<Rightarrow>
          (case AppendUint (ucast v) 5 s of
             None \<Rightarrow> None
           | Some (Some p, s1) \<Rightarrow> Some (Inl p, s1)
           | Some (None, s1) \<Rightarrow> UnmarshalBase32_loop cs s1))"

definition UnmarshalBase32 ::
  "string \<Rightarrow> BitStream \<Rightarrow> ((panic + base32_error option) \<times> BitStream) option" where
  "UnmarshalBase32 encoded s =
     UnmarshalBase32_loop encoded (s\<lparr>backingStore := None, nextBitIndex := 0\<rparr>)"

section \<open>Big integers\<close>

text \<open>
  A \<open>big.Int\<close> is an \<open>int\<close>. The three methods of math/big that the code calls, after
  their documentation: \<open>BitLen\<close> is the length of the absolute value in bits (0 for 0);
  \<open>FillBytes\<close> writes the absolute value big-endian, zero-extended, into a buffer of the
  given length and panics when it does not fit; \<open>SetBytes\<close> reads a big-endian unsigned
  integer.
\<close>

fun bit_length :: "nat \<Rightarrow> nat" where
  "bit_length n = (if n = 0 then 0 else Suc (bit_length (n div 2)))"

declare bit_length.simps [simp del]

definition BitLen :: "int \<Rightarrow> nat" where
  "BitLen x = bit_length (nat \<bar>x\<bar>)"

definition FillBytes :: "int \<Rightarrow> nat \<Rightarrow> panic + byte list" where
  "FillBytes x n =
     (if \<bar>x\<bar> < 2 ^ (8 * n)
      then Inr (map (\<lambda>k. word_of_int (drop_bit (8 * (n - 1 - k)) \<bar>x\<bar>)) [0..<n])
      else Inl FillBytesTooSmall)"

definition SetBytes :: "byte list \<Rightarrow> int" where
  "SetBytes buf = foldl (\<lambda>acc b. acc * 256 + uint b) 0 buf"

text \<open>
  \<open>AppendBigInt\<close>. The check compares with \<open>int(nbits)\<close>, which is negative from \<open>2^63\<close>
  on; \<open>FillBytes\<close> gets the buffer of \<open>make\<close> and its length. When \<open>nbits mod 8 \<noteq> 0\<close>
  the buffer has at least one byte, so \<open>bytes[0]\<close> and \<open>bytes[1:]\<close> are in range.
\<close>

definition AppendBigInt :: "int \<Rightarrow> nat \<Rightarrow> BitStream \<Rightarrow> run" where
  "AppendBigInt v nbits s =
     (if int (BitLen v) > int_of_uint nbits then Some (Some ValueTooBigForBits, s)
      else
        (case make_bytes (uint_add nbits 7 div 8) of
           Inl p \<Rightarrow> Some (Some p, s)
         | Inr buf \<Rightarrow>
             (case FillBytes v (length buf) of
                Inl p \<Rightarrow> Some (Some p, s)
              | Inr bytes \<Rightarrow>
                  (let offset = nbits mod 8
                   in if offset = 0 then AppendBits nbits bytes s
                      else
                        (let firstByte = (ucast (bytes ! 0) :: uint64)
                         in case AppendUint firstByte offset s of
                              None \<Rightarrow> None
                            | Some (Some p, s1) \<Rightarrow> Some (Some p, s1)
                            | Some (None, s1) \<Rightarrow>
                                (let remainingSize = nbits - offset;
                                     remainingBytes = drop 1 bytes
                                 in AppendBits remainingSize remainingBytes s1))))))"

definition BigIntAt :: "BitStream \<Rightarrow> nat \<Rightarrow> nat \<Rightarrow> panic + int" where
  "BigIntAt s index nbits =
     (let offset = nbits mod 8
      in if offset = 0 then
           (case BitsAt s index nbits of
              Inl p \<Rightarrow> Inl p
            | Inr resultBytes \<Rightarrow> Inr (SetBytes resultBytes))
         else
           (case UintAt s index offset of
              Inl p \<Rightarrow> Inl p
            | Inr firstByte \<Rightarrow>
                (case BitsAt s (index + offset) (nbits - offset) of
                   Inl p \<Rightarrow> Inl p
                 | Inr remainingBytes \<Rightarrow>
                     Inr (SetBytes ((ucast firstByte :: byte) # remainingBytes)))))"

section \<open>Reachable streams and their invariant\<close>

text \<open>
  The fields of a \<open>BitStream\<close> are not exported: a client starts from the zero value and
  calls the methods. \<open>reachable\<close> collects the streams that exist after any number of
  calls, whatever way a call ended.
\<close>

inductive reachable :: "BitStream \<Rightarrow> bool" where
  reach_empty: "reachable emptyBitStream"
| reach_AppendBits: "reachable s \<Longrightarrow> AppendBits sz bits s = Some (r, s1) \<Longrightarrow> reachable s1"
| reach_AppendBit: "reachable s \<Longrightarrow> AppendBit b s = Some (r, s1) \<Longrightarrow> reachable s1"
| reach_AppendUint64: "reachable s \<Longrightarrow> AppendUint64 v s = Some (r, s1) \<Longrightarrow> reachable s1"
| reach_AppendUint: "reachable s \<Longrightarrow> AppendUint v sz s = Some (r, s1) \<Longrightarrow> reachable s1"
| reach_AppendBigInt: "reachable s \<Longrightarrow> AppendBigInt x nbits s = Some (r, s1) \<Longrightarrow> reachable s1"
| reach_AppendBitstream:
    "reachable s \<Longrightarrow> reachable other \<Longrightarrow> AppendBitstream other s = Some (r, s1) \<Longrightarrow> reachable s1"
| reach_Concat: "reachable s \<Longrightarrow> reachable other \<Longrightarrow> Concat s other = Some (Inr s1) \<Longrightarrow> reachable s1"
| reach_BitstreamAt: "reachable s \<Longrightarrow> BitstreamAt s index sz = Some (Inr s1) \<Longrightarrow> reachable s1"
| reach_UnmarshalBase32:
    "reachable s \<Longrightarrow> UnmarshalBase32 encoded s = Some (e, s1) \<Longrightarrow> reachable s1"

text \<open>
  Bit \<open>p\<close> of a byte sequence, counted from the most significant bit of byte 0, as a
  truth value and as the byte 0 or 1 that \<open>BitAt\<close> returns.
\<close>

definition bit_in :: "byte list \<Rightarrow> nat \<Rightarrow> bool" where
  "bit_in bs p = bit (bs ! (p div 8)) (7 - p mod 8)"

definition msb_bit :: "byte list \<Rightarrow> nat \<Rightarrow> byte" where
  "msb_bit bs p = drop_bit (7 - p mod 8) (bs ! (p div 8)) AND 1"

text \<open>Every bit of \<open>st\<close> from position \<open>n\<close> on is zero.\<close>

definition zero_from :: "byte list \<Rightarrow> nat \<Rightarrow> bool" where
  "zero_from st n = (\<forall>p\<in>{n..<8 * length st}. \<not> bit_in st p)"

text \<open>
  \<open>st1\<close> has the length of \<open>st\<close>, its first \<open>n\<close> bits, then the first \<open>k\<close> bits of \<open>src\<close>,
  then zeros.
\<close>

definition appended :: "byte list \<Rightarrow> nat \<Rightarrow> byte list \<Rightarrow> nat \<Rightarrow> byte list \<Rightarrow> bool" where
  "appended st n src k st1 \<longleftrightarrow>
     length st1 = length st \<and>
     (\<forall>p<8 * length st.
        bit_in st1 p = (if p < n then bit_in st p else p < n + k \<and> bit_in src (p - n)))"

text \<open>
  What \<open>AppendBits\<close> needs of its receiver: a store that is nil or not empty and holds the
  stored bits, with zeros behind them.
\<close>

definition appendable :: "BitStream \<Rightarrow> bool" where
  "appendable s \<longleftrightarrow>
     (backingStore s = None \<or> 0 < length (slice_bytes (backingStore s))) \<and>
     nextBitIndex s \<le> 8 * length (slice_bytes (backingStore s)) \<and>
     zero_from (slice_bytes (backingStore s)) (nextBitIndex s)"

text \<open>
  The invariant of the reachable streams: the store is nil and the stream empty, or the
  store is longer than the bytes that hold the stored bits; the bits behind them are zero.
\<close>

definition wellformed :: "BitStream \<Rightarrow> bool" where
  "wellformed s \<longleftrightarrow>
     (case backingStore s of
        None \<Rightarrow> nextBitIndex s = 0
      | Some st \<Rightarrow> bytesNeededForBits (nextBitIndex s) < length st \<and>
                   zero_from st (nextBitIndex s))"


text \<open>
  Bit \<open>q\<close> of the decoding of a base32 text: five bits for each character, the most
  significant first, of the character's value in the reverse map.
\<close>

definition decoded_bit :: "string \<Rightarrow> nat \<Rightarrow> bool" where
  "decoded_bit cs q = bit (the (base32Reversed (cs ! (q div 5)))) (4 - q mod 5)"

text \<open>The value of the \<open>g\<close>-th group of five bits, as \<open>MarshalBase32\<close> reads it.\<close>

definition group_value :: "BitStream \<Rightarrow> nat \<Rightarrow> nat" where
  "group_value s g = (case UintAt s (5 * g) 5 of Inl p \<Rightarrow> 0 | Inr w \<Rightarrow> unat w)"

section \<open>Streams in a heap\<close>

text \<open>
  The methods take their receiver and their stream arguments by pointer, and a slice
  points to an array. Whether a call leaves a stream as it was is a question about the
  objects and arrays that exist when the call is made, so the operations that such claims
  are about are modelled a second time over a heap: the list of the \<open>BitStream\<close> objects
  and the list of the byte arrays, each addressed by its position. An object holds
  \<open>nextBitIndex\<close> and the address of the array of \<open>backingStore\<close>, or \<open>None\<close> for the nil
  slice. The slices of the program are whole arrays (each comes from \<open>make\<close>), so the
  address stands for the slice. \<open>new\<close> and \<open>make\<close> add an object or an array at the end.
\<close>

record BitStreamObj =
  objNextBitIndex :: nat
  objBackingStore :: "nat option"

record heap =
  objects :: "BitStreamObj list"
  arrays :: "byte list list"

definition heap_slice :: "heap \<Rightarrow> nat option \<Rightarrow> byte list" where
  "heap_slice h sl = (case sl of None \<Rightarrow> [] | Some a \<Rightarrow> arrays h ! a)"

text \<open>The stream value that the object at \<open>p\<close> holds.\<close>

definition stream_at :: "heap \<Rightarrow> nat \<Rightarrow> BitStream" where
  "stream_at h p =
     \<lparr>nextBitIndex = objNextBitIndex (objects h ! p),
      backingStore = map_option (\<lambda>a. arrays h ! a) (objBackingStore (objects h ! p))\<rparr>"

definition set_nextBitIndex :: "nat \<Rightarrow> nat \<Rightarrow> heap \<Rightarrow> heap" where
  "set_nextBitIndex p n h = h\<lparr>objects := (objects h)[p := (objects h ! p)\<lparr>objNextBitIndex := n\<rparr>]\<rparr>"

definition set_backingStore :: "nat \<Rightarrow> nat option \<Rightarrow> heap \<Rightarrow> heap" where
  "set_backingStore p sl h = h\<lparr>objects := (objects h)[p := (objects h ! p)\<lparr>objBackingStore := sl\<rparr>]\<rparr>"

text \<open>
  \<open>make([]byte, n)\<close>: a new array of zeros, and its address; \<open>make_heap\<close> is \<open>make\<close> with
  the limit of \<open>make_bytes\<close>. \<open>copy(dst, src)\<close> writes the array of \<open>dst\<close>.
\<close>

definition alloc :: "nat \<Rightarrow> heap \<Rightarrow> nat \<times> heap" where
  "alloc n h = (length (arrays h), h\<lparr>arrays := arrays h @ [replicate n 0]\<rparr>)"

definition make_heap :: "nat \<Rightarrow> heap \<Rightarrow> panic + nat \<times> heap" where
  "make_heap n h = (if maxAlloc < n then Inl MakeSliceLenOutOfRange else Inr (alloc n h))"

definition copy_heap :: "nat \<Rightarrow> nat option \<Rightarrow> heap \<Rightarrow> heap" where
  "copy_heap dst src h =
     h\<lparr>arrays := (arrays h)[dst := copy_bytes (arrays h ! dst) (heap_slice h src)]\<rparr>"

text \<open>\<open>s.backingStore[i] |= v\<close> for the receiver at \<open>p\<close>.\<close>

definition or_at_heap :: "nat \<Rightarrow> byte \<Rightarrow> nat \<Rightarrow> heap \<Rightarrow> heap option" where
  "or_at_heap i v p h =
     (case objBackingStore (objects h ! p) of
        None \<Rightarrow> None
      | Some a \<Rightarrow>
          if i < length (arrays h ! a)
          then Some (h\<lparr>arrays := (arrays h)[a := (arrays h ! a)[i := arrays h ! a ! i OR v]]\<rparr>)
          else None)"

text \<open>
  \<open>AppendBits\<close> with the receiver at \<open>p\<close> and the slice \<open>bits\<close>, in the parts of the
  first model. The source bytes are read from the heap when the loop comes to them.
\<close>

definition ensureSize_heap :: "nat \<Rightarrow> nat \<Rightarrow> heap \<Rightarrow> heap option" where
  "ensureSize_heap neededSize p h =
     (let sl = objBackingStore (objects h ! p)
      in if sl = None \<or> length (heap_slice h sl) \<le> neededSize then
           (case grow (if sl \<noteq> None then length (heap_slice h sl) else 16) neededSize of
              None \<Rightarrow> None
            | Some nextSize \<Rightarrow>
                (let (nextStore, h1) = alloc nextSize h;
                     h2 = copy_heap nextStore sl h1
                 in Some (set_backingStore p (Some nextStore) h2)))
         else Some h)"

fun appendFullBytes_heap ::
  "nat \<Rightarrow> nat \<Rightarrow> nat option \<Rightarrow> nat list \<Rightarrow> nat \<Rightarrow> heap \<Rightarrow> panic option \<times> heap" where
  "appendFullBytes_heap offset bitsLeftInByte bits [] p h = (None, h)"
| "appendFullBytes_heap offset bitsLeftInByte bits (k # ks) p h =
     (let bt = heap_slice h bits ! k;
          nextByteIndex = objNextBitIndex (objects h ! p) div 8;
          top = topNBits bt bitsLeftInByte;
          bottom = bottomNBits bt offset
      in case or_at_heap nextByteIndex top p h of
           None \<Rightarrow> (Some IndexOutOfRange, h)
         | Some h1 \<Rightarrow>
             (case or_at_heap (nextByteIndex + 1) (push_bit bitsLeftInByte bottom) p h1 of
                None \<Rightarrow> (Some IndexOutOfRange, h1)
              | Some h2 \<Rightarrow>
                  appendFullBytes_heap offset bitsLeftInByte bits ks p
                    (set_nextBitIndex p (objNextBitIndex (objects h2 ! p) + 8) h2)))"

definition appendLastByte_heap ::
  "nat \<Rightarrow> nat \<Rightarrow> nat option \<Rightarrow> nat \<Rightarrow> nat \<Rightarrow> heap \<Rightarrow> panic option \<times> heap" where
  "appendLastByte_heap sz bitsLeftInByte bits numFullBytes p h =
     (let trailingBits = sz mod 8;
          topCount = min trailingBits bitsLeftInByte;
          bottomCount = trailingBits - topCount;
          nextByteIndex = objNextBitIndex (objects h ! p) div 8;
          top = topNBits (heap_slice h bits ! numFullBytes) topCount;
          shiftAmount = 8 - (objNextBitIndex (objects h ! p) mod 8) - topCount;
          shiftedTop = push_bit shiftAmount top
      in case or_at_heap nextByteIndex shiftedTop p h of
           None \<Rightarrow> (Some IndexOutOfRange, h)
         | Some h1 \<Rightarrow>
             (let h2 = set_nextBitIndex p (objNextBitIndex (objects h1 ! p) + topCount) h1;
                  nextByteIndex = objNextBitIndex (objects h2 ! p) div 8
              in if 0 < bottomCount then
                   (let bottom = bottomNBits
                          (drop_bit (unat (8 - of_nat topCount - of_nat bottomCount :: byte))
                             (heap_slice h2 bits ! numFullBytes))
                          bottomCount;
                        shiftedBottom = push_bit (8 - bottomCount) bottom
                    in case or_at_heap nextByteIndex shiftedBottom p h2 of
                         None \<Rightarrow> (Some IndexOutOfRange, h2)
                       | Some h3 \<Rightarrow>
                           (None, set_nextBitIndex p
                                    (objNextBitIndex (objects h3 ! p) + bottomCount) h3))
                 else (None, h2)))"

definition AppendBits_heap ::
  "nat \<Rightarrow> nat option \<Rightarrow> nat \<Rightarrow> heap \<Rightarrow> (panic option \<times> heap) option" where
  "AppendBits_heap sz bits p h =
     (if length (heap_slice h bits) < bytesNeededForBits sz then Some (Some TooFewBytes, h)
      else
        (let neededSize = bytesNeededForBits (objNextBitIndex (objects h ! p) + sz)
         in case ensureSize_heap neededSize p h of
              None \<Rightarrow> None
            | Some h1 \<Rightarrow>
                (let numFullBytes = sz div 8;
                     offset = objNextBitIndex (objects h1 ! p) mod 8;
                     bitsLeftInByte = 8 - offset
                 in case appendFullBytes_heap offset bitsLeftInByte bits [0..<numFullBytes] p h1 of
                      (Some e, h2) \<Rightarrow> Some (Some e, h2)
                    | (None, h2) \<Rightarrow>
                        if sz mod 8 \<noteq> 0
                        then Some (appendLastByte_heap sz bitsLeftInByte bits numFullBytes p h2)
                        else Some (None, h2))))"

definition AppendBitstream_heap :: "nat \<Rightarrow> nat \<Rightarrow> heap \<Rightarrow> (panic option \<times> heap) option" where
  "AppendBitstream_heap other p h =
     AppendBits_heap (objNextBitIndex (objects h ! other)) (objBackingStore (objects h ! other)) p h"

text \<open>
  \<open>Concat\<close> of the streams at \<open>s\<close> and \<open>other\<close>: the address of the new object, or the
  panic, and the heap after the call; \<open>None\<close> when the call does not return.
\<close>

definition Concat_heap :: "nat \<Rightarrow> nat \<Rightarrow> heap \<Rightarrow> ((panic + nat) \<times> heap) option" where
  "Concat_heap s other h =
     (let result = length (objects h);
          h1 = h\<lparr>objects := objects h @ [\<lparr>objNextBitIndex = 0, objBackingStore = None\<rparr>]\<rparr>;
          (store, h2) = alloc (bytesNeededForBits (objNextBitIndex (objects h1 ! s)
                                                  + objNextBitIndex (objects h1 ! other))) h1;
          h3 = set_backingStore result (Some store) h2;
          h4 = copy_heap store (objBackingStore (objects h3 ! s)) h3;
          h5 = set_nextBitIndex result (objNextBitIndex (objects h4 ! s)) h4
      in case AppendBitstream_heap other result h5 of
           None \<Rightarrow> None
         | Some (Some e, h6) \<Rightarrow> Some (Inl e, h6)
         | Some (None, h6) \<Rightarrow> Some (Inr result, h6))"

text \<open>
  The accessors of the contract checks, with the heap that they leave. \<open>BitsAt\<close> returns
  the address of the array \<open>result\<close> that it fills, and \<open>UintAt\<close> has a buffer of its own.
\<close>

definition BitAt_heap :: "nat \<Rightarrow> nat \<Rightarrow> heap \<Rightarrow> (panic + byte) \<times> heap" where
  "BitAt_heap index p h =
     (if index \<ge> objNextBitIndex (objects h ! p) then (Inl IndexOutOfBounds, h)
      else
        (let byteIndex = index div 8;
             bitIndex = index mod 8;
             st = heap_slice h (objBackingStore (objects h ! p))
         in if byteIndex < length st
            then (Inr (drop_bit (7 - bitIndex) (st ! byteIndex) AND 1), h)
            else (Inl IndexOutOfRange, h)))"

function BitsAt_loop_heap ::
  "nat \<Rightarrow> nat \<Rightarrow> nat \<Rightarrow> nat \<Rightarrow> int \<Rightarrow> nat \<Rightarrow> nat \<Rightarrow> heap \<Rightarrow> (panic + nat) \<times> heap" where
  "BitsAt_loop_heap index sz i byteIndex shift result p h =
     (if i < sz then
        (let byteIndex1 = (if shift < 0 then byteIndex + 1 else byteIndex);
             shift1 = (if shift < 0 then 7 else shift)
         in case BitAt_heap (index + i) p h of
              (Inl e, h1) \<Rightarrow> (Inl e, h1)
            | (Inr b, h1) \<Rightarrow>
                if byteIndex1 < length (arrays h1 ! result)
                then BitsAt_loop_heap index sz (i + 1) byteIndex1 (shift1 - 1) result p
                       (h1\<lparr>arrays := (arrays h1)[result := (arrays h1 ! result)
                              [byteIndex1 := arrays h1 ! result ! byteIndex1
                                               OR push_bit (nat shift1) b]]\<rparr>)
                else (Inl IndexOutOfRange, h1))
      else (Inr result, h))"
  by pat_completeness auto
termination
  by (relation "measure (\<lambda>(index, sz, i, byteIndex, shift, result, p, h). sz - i)") auto

declare BitsAt_loop_heap.simps [simp del]

definition BitsAt_heap :: "nat \<Rightarrow> nat \<Rightarrow> nat \<Rightarrow> heap \<Rightarrow> (panic + nat) \<times> heap" where
  "BitsAt_heap index sz p h =
     (if uint_add index sz > objNextBitIndex (objects h ! p) then (Inl IndexOutOfBounds, h)
      else
        (case make_heap (bytesNeededForBits sz) h of
           Inl e \<Rightarrow> (Inl e, h)
         | Inr (result, h1) \<Rightarrow> BitsAt_loop_heap index sz 0 0 7 result p h1))"

definition UintAt_heap :: "nat \<Rightarrow> nat \<Rightarrow> nat \<Rightarrow> heap \<Rightarrow> (panic + uint64) \<times> heap" where
  "UintAt_heap index sz p h =
     (if sz > 64 then (Inl SizeTooBig, h)
      else
        (let (uintBuffer, h1) = alloc 8 h
         in case BitsAt_heap index sz p h1 of
              (Inl e, h2) \<Rightarrow> (Inl e, h2)
            | (Inr data, h2) \<Rightarrow>
                (let h3 = copy_heap uintBuffer (Some data) h2
                 in case Uint64 (arrays h3 ! uintBuffer) of
                      Inl e \<Rightarrow> (Inl e, h3)
                    | Inr w \<Rightarrow> (Inr (drop_bit (64 - sz) w), h3))))"

text \<open>
  The loop of \<open>MarshalBase32\<close> reads \<open>s.nextBitIndex\<close> from the heap each time round;
  \<open>None\<close> is the loop that does not end.
\<close>

partial_function (option) MarshalBase32_loop_heap ::
  "nat \<Rightarrow> string \<Rightarrow> nat \<Rightarrow> heap \<Rightarrow> ((panic + string) \<times> heap) option" where
  "MarshalBase32_loop_heap i result p h =
     (if i < objNextBitIndex (objects h ! p) then
        (case UintAt_heap i 5 p h of
           (Inl e, h1) \<Rightarrow> Some (Inl e, h1)
         | (Inr v, h1) \<Rightarrow>
             if unat v < length base32Alphabet
             then MarshalBase32_loop_heap (i + 5) (result @ [base32Alphabet ! unat v]) p h1
             else Some (Inl IndexOutOfRange, h1))
      else Some (Inr result, h))"

declare MarshalBase32_loop_heap.simps [code]

definition MarshalBase32_heap :: "nat \<Rightarrow> heap \<Rightarrow> ((panic + string) \<times> heap) option" where
  "MarshalBase32_heap p h =
     (if objNextBitIndex (objects h ! p) mod 5 \<noteq> 0 then Some (Inl NotMultipleOfFive, h)
      else MarshalBase32_loop_heap 0 [] p h)"

text \<open>
  A reference \<open>p\<close> is valid in a heap that has the object and the array of its store.
  \<open>unchanged h h'\<close>: every object of \<open>h\<close> and every array of \<open>h\<close> is in \<open>h'\<close> what it is in
  \<open>h\<close>; \<open>h'\<close> may have more arrays.
\<close>

definition valid_ref :: "heap \<Rightarrow> nat \<Rightarrow> bool" where
  "valid_ref h p \<longleftrightarrow>
     p < length (objects h)
     \<and> (case objBackingStore (objects h ! p) of None \<Rightarrow> True | Some a \<Rightarrow> a < length (arrays h))"

definition unchanged :: "heap \<Rightarrow> heap \<Rightarrow> bool" where
  "unchanged h h' \<longleftrightarrow>
     objects h' = objects h \<and> take (length (arrays h)) (arrays h') = arrays h"

text \<open>
  For the proofs: the object at \<open>p\<close> owns the array \<open>ta\<close>, and the heap in which the
  stream value \<open>s\<close> is written to that object and that array.
\<close>

definition owns :: "heap \<Rightarrow> nat \<Rightarrow> nat \<Rightarrow> bool" where
  "owns h p ta \<longleftrightarrow>
     p < length (objects h) \<and> objBackingStore (objects h ! p) = Some ta \<and> ta < length (arrays h)"

definition write_back :: "heap \<Rightarrow> nat \<Rightarrow> nat \<Rightarrow> BitStream \<Rightarrow> heap" where
  "write_back h p ta s =
     h\<lparr>objects := (objects h)[p := \<lparr>objNextBitIndex = nextBitIndex s, objBackingStore = Some ta\<rparr>],
       arrays := (arrays h)[ta := slice_bytes (backingStore s)]\<rparr>"

section \<open>Sums, conversions and allocations\<close>

lemma uint_add_le: "uint_add a b \<le> a + b"
  by (simp add: uint_add_def)

lemma uint_add_small: "a + b < 2 ^ 64 \<Longrightarrow> uint_add a b = a + b"
  by (simp add: uint_add_def)

lemma uint_add_wraps: "a < 2 ^ 64 \<Longrightarrow> b < 2 ^ 64 \<Longrightarrow> 2 ^ 64 \<le> a + b \<Longrightarrow> uint_add a b = a + b - 2 ^ 64"
proof -
  assume a: "a < 2 ^ 64" "b < 2 ^ 64" "2 ^ 64 \<le> a + b"
  define c where "c = a + b - 2 ^ 64"
  have "a + b = c + 2 ^ 64" "c < 2 ^ 64" using a by (simp_all add: c_def)
  then show "uint_add a b = a + b - 2 ^ 64" by (simp add: uint_add_def)
qed

lemma make_bytes_ok: "n \<le> maxAlloc \<Longrightarrow> make_bytes n = Inr (replicate n 0)"
  by (simp add: make_bytes_def)

lemma make_bytes_Inr: "make_bytes n = Inr buf \<Longrightarrow> buf = replicate n 0 \<and> n \<le> maxAlloc"
  by (simp add: make_bytes_def split: if_splits)

lemma int_of_uint_small:
  assumes "n < 2 ^ 63"
  shows "int_of_uint n = int n"
proof -
  have "int n < 2 ^ 63" using assms by (simp flip: of_nat_less_iff)
  then have "signed_take_bit 63 (int n) = int n"
    by (intro signed_take_bit_int_eq_self) simp_all
  then show ?thesis by (simp add: int_of_uint_def signed_of_nat)
qed

lemma int_of_uint_negative:
  assumes "2 ^ 63 \<le> n" and "n < 2 ^ 64"
  shows "int_of_uint n < 0"
proof -
  define c where "c = n - 2 ^ 63"
  have n: "n = 2 ^ 63 + c" and c: "c < 2 ^ 63" using assms by (simp_all add: c_def)
  have "n div 2 ^ 63 = 1" unfolding n using c by simp
  then have "bit n 63" by (simp add: bit_iff_odd)
  then have "bit (int n) 63" by (simp only: bit_of_nat_iff_bit)
  then show ?thesis
    by (simp add: int_of_uint_def signed_of_nat signed_take_bit_negative_iff)
qed

section \<open>Bits of bytes\<close>

lemma bottomNBits_mask: "bottomNBits b n = b AND mask n"
  by (simp add: bottomNBits_def mask_eq_exp_minus_1 push_bit_of_1)

lemma bit_topNBits: "bit (topNBits b n) k \<longleftrightarrow> n \<le> 8 \<and> bit b (k + (8 - n))"
  by (simp add: topNBits_def bit_simps add.commute)

lemma bit_bottomNBits: "bit (bottomNBits b n) k \<longleftrightarrow> k < n \<and> bit b k"
  by (auto simp add: bottomNBits_mask bit_simps dest: bit_imp_le_length)

lemma grow_terminates: "0 < a \<Longrightarrow> \<exists>r. grow a b = Some r \<and> b < r \<and> a \<le> r"
proof (induction "Suc b - a" arbitrary: a rule: less_induct)
  case less
  show ?case
  proof (cases "a \<le> b")
    case True
    have "Suc b - a * 2 < Suc b - a" using True less.prems by arith
    moreover have "0 < a * 2" using less.prems by simp
    ultimately obtain r where "grow (a * 2) b = Some r" "b < r" "a * 2 \<le> r"
      using less.hyps by blast
    then show ?thesis using True by (subst grow.simps) auto
  next
    case False
    then show ?thesis by (subst grow.simps) auto
  qed
qed

lemma grow_zero_diverges: "grow 0 b = None"
proof -
  have "grow a b = Some r \<Longrightarrow> 0 < a" for a r
    by (rule grow.raw_induct [where P = "\<lambda>a b r. 0 < a"]) (fastforce split: if_splits)+
  then show ?thesis by (cases "grow 0 b") auto
qed

lemma bit_in_append_zeros:
  "p < 8 * (length st + k) \<Longrightarrow>
   bit_in (st @ replicate k 0) p = (p < 8 * length st \<and> bit_in st p)"
  by (auto simp add: bit_in_def nth_append)

lemma bit_in_or_update:
  "i < length st \<Longrightarrow> p < 8 * length st \<Longrightarrow>
   bit_in (st[i := st ! i OR v]) p = (bit_in st p \<or> (p div 8 = i \<and> bit v (7 - p mod 8)))"
  by (auto simp add: bit_in_def nth_list_update bit_simps)

lemma bit_in_Cons:
  "bit_in (b # bs) q = (if q < 8 then bit b (7 - q) else bit_in bs (q - 8))"
  by (auto simp add: bit_in_def nth_Cons' div_eq_0_iff) (simp_all add: le_div_geq le_mod_geq not_less)


lemma copy_bytes_zeros:
  "length st \<le> r \<Longrightarrow> copy_bytes (replicate r 0) st = st @ replicate (r - length st) 0"
  by (simp add: copy_bytes_def min_def)

lemma ensureSize_ok:
  assumes "backingStore s = None \<or> 0 < length (slice_bytes (backingStore s))"
  shows "\<exists>k. ensureSize m s =
             Some (s\<lparr>backingStore := Some (slice_bytes (backingStore s) @ replicate k 0)\<rparr>)
           \<and> m < length (slice_bytes (backingStore s)) + k"
proof (cases "backingStore s")
  case None
  obtain r where r: "grow 16 m = Some r" "m < r"
    using grow_terminates [of 16 m] by auto
  show ?thesis using None r
    by (auto simp add: ensureSize_def slice_bytes_def copy_bytes_zeros)
next
  case (Some st)
  with assms have pos: "0 < length st" by (simp add: slice_bytes_def)
  show ?thesis
  proof (cases "length st \<le> m")
    case True
    obtain r where r: "grow (length st) m = Some r" "m < r" "length st \<le> r"
      using grow_terminates [OF pos, of m] by auto
    show ?thesis using Some True r
      by (intro exI [of _ "r - length st"])
        (simp add: ensureSize_def slice_bytes_def copy_bytes_zeros)
  next
    case False
    then show ?thesis using Some
      by (intro exI [of _ 0]) (simp add: ensureSize_def slice_bytes_def)
  qed
qed

lemma full_top_bit:
  assumes "m < 8" "off < 8"
  shows "bit (topNBits bt (8 - off)) (7 - m) \<longleftrightarrow> off \<le> m \<and> bit bt (7 - (m - off))"
proof (cases "off \<le> m")
  case True
  then have "7 - m + (8 - (8 - off)) = 7 - (m - off)" using assms by arith
  then have "bit bt (7 - m + (8 - (8 - off))) = bit bt (7 - (m - off))" by (rule arg_cong)
  then show ?thesis using True unfolding bit_topNBits by simp
next
  case False
  then have "\<not> 7 - m + (8 - (8 - off)) < LENGTH(8)" using assms by simp
  then have "\<not> bit bt (7 - m + (8 - (8 - off)))" using bit_imp_le_length by blast
  then show ?thesis using False unfolding bit_topNBits by simp
qed

lemma full_bottom_bit:
  assumes "m < 8" "off < 8"
  shows "bit (push_bit (8 - off) (bottomNBits bt off)) (7 - m) \<longleftrightarrow>
           m < off \<and> bit bt (off - 1 - m)"
proof (cases "m < off")
  case True
  then have "7 - m - (8 - off) = off - 1 - m" using assms by arith
  then have eq: "bit bt (7 - m - (8 - off)) = bit bt (off - 1 - m)" by (rule arg_cong)
  have "8 - off \<le> 7 - m" "7 - m - (8 - off) < off" "7 - m < 8" using True assms by arith+
  then show ?thesis using True eq unfolding bit_push_bit_iff bit_bottomNBits by simp
next
  case False
  then have "\<not> 8 - off \<le> 7 - m" using assms by arith
  then show ?thesis using False unfolding bit_push_bit_iff by simp
qed

lemma full_byte_bit_aux:
  fixes q m q0 off :: nat
  assumes m: "m < 8" "off < 8"
  shows "(q = q0 \<and> bit (topNBits bt (8 - off)) (7 - m)) \<or>
         (q = q0 + 1 \<and> bit (push_bit (8 - off) (bottomNBits bt off)) (7 - m))
         \<longleftrightarrow> 8 * q0 + off \<le> 8 * q + m \<and> 8 * q + m < 8 * q0 + off + 8
              \<and> bit bt (7 - (8 * q + m - (8 * q0 + off)))"
proof -
  consider "q = q0" | "q = q0 + 1" | "q < q0" | "q0 + 1 < q" by arith
  then show ?thesis
  proof cases
    case 1
    then show ?thesis using m by (simp add: full_top_bit)
  next
    case 2
    have "m < off \<Longrightarrow> 7 - (8 + m - off) = off - 1 - m" using m by arith
    then show ?thesis using 2 m by (auto simp add: full_bottom_bit)
  next
    case 3
    then show ?thesis using m by simp
  next
    case 4
    then show ?thesis using m by simp
  qed
qed

lemma full_byte_bit:
  fixes n p :: nat
  shows "(p div 8 = n div 8 \<and> bit (topNBits bt (8 - n mod 8)) (7 - p mod 8)) \<or>
         (p div 8 = n div 8 + 1 \<and>
            bit (push_bit (8 - n mod 8) (bottomNBits bt (n mod 8))) (7 - p mod 8))
         \<longleftrightarrow> n \<le> p \<and> p < n + 8 \<and> bit bt (7 - (p - n))"
  using full_byte_bit_aux [of "p mod 8" "n mod 8" "p div 8" "n div 8" bt]
  by simp


lemma or_at_Some:
  "backingStore s = Some st \<Longrightarrow> i < length st \<Longrightarrow>
   or_at i v s = Some (s\<lparr>backingStore := Some (st[i := st ! i OR v])\<rparr>)"
  by (simp add: or_at_def slice_bytes_def)

lemma zero_fromD: "zero_from st n \<Longrightarrow> n \<le> p \<Longrightarrow> p < 8 * length st \<Longrightarrow> \<not> bit_in st p"
  by (simp add: zero_from_def)

lemma appended_zero_from:
  "appended st n src k st1 \<Longrightarrow> zero_from st1 (n + k)"
  by (simp add: appended_def zero_from_def)

lemma appended_src_cong:
  assumes "appended st n src k st1" and "\<And>j. j < k \<Longrightarrow> bit_in src j = bit_in srcb j"
  shows "appended st n srcb k st1"
  unfolding appended_def
proof (intro conjI allI impI)
  show "length st1 = length st" using assms(1) by (simp add: appended_def)
next
  fix p assume p: "p < 8 * length st"
  have 1: "bit_in st1 p = (if p < n then bit_in st p else p < n + k \<and> bit_in src (p - n))"
    using assms(1) p by (simp add: appended_def)
  have "bit_in src (p - n) = bit_in srcb (p - n)" if "\<not> p < n" "p < n + k"
  proof -
    have "p - n < k" using that by arith
    then show ?thesis by (rule assms(2))
  qed
  then show "bit_in st1 p = (if p < n then bit_in st p else p < n + k \<and> bit_in srcb (p - n))"
    using 1 by auto
qed

lemma appended_trans:
  assumes "appended st n src k sta" "appended sta (n + k) srcb kb stb"
    and "\<And>j. j < kb \<Longrightarrow> bit_in srcb j = bit_in src (k + j)"
  shows "appended st n src (k + kb) stb"
  unfolding appended_def
proof (intro conjI allI impI)
  show "length stb = length st" using assms(1,2) by (simp add: appended_def)
next
  fix p assume p: "p < 8 * length st"
  have len: "length sta = length st" using assms(1) by (simp add: appended_def)
  have 1: "bit_in sta p = (if p < n then bit_in st p else p < n + k \<and> bit_in src (p - n))"
    using assms(1) p by (simp add: appended_def)
  have 2: "bit_in stb p = (if p < n + k then bit_in sta p
                            else p < n + k + kb \<and> bit_in srcb (p - (n + k)))"
    using assms(2) p len by (simp add: appended_def)
  show "bit_in stb p = (if p < n then bit_in st p else p < n + (k + kb) \<and> bit_in src (p - n))"
  proof (cases "p < n + k")
    case True
    then show ?thesis using 1 2 by auto
  next
    case False
    show ?thesis
    proof (cases "p < n + k + kb")
      case True
      then have "p - (n + k) < kb" using False by arith
      then have "bit_in srcb (p - (n + k)) = bit_in src (k + (p - (n + k)))" by (rule assms(3))
      moreover have "k + (p - (n + k)) = p - n" using False by arith
      ultimately show ?thesis using 2 False True by simp
    next
      case False2: False
      then show ?thesis using 2 False by simp
    qed
  qed
qed

lemma full_byte_step:
  fixes bt :: byte and n :: nat and st :: "byte list"
  assumes len: "n div 8 + 1 < length st" and z: "zero_from st n"
  defines "st1 \<equiv> st[n div 8 := st ! (n div 8) OR topNBits bt (8 - n mod 8)]"
  defines "st2 \<equiv> st1[n div 8 + 1 := st1 ! (n div 8 + 1)
                        OR push_bit (8 - n mod 8) (bottomNBits bt (n mod 8))]"
  shows "appended st n [bt] 8 st2"
  unfolding appended_def
proof (intro conjI allI impI)
  show "length st2 = length st" by (simp add: st2_def st1_def)
next
  fix p assume p: "p < 8 * length st"
  have l1: "length st1 = length st" by (simp add: st1_def)
  have "bit_in st2 p = (bit_in st1 p \<or> (p div 8 = n div 8 + 1 \<and>
           bit (push_bit (8 - n mod 8) (bottomNBits bt (n mod 8))) (7 - p mod 8)))"
    unfolding st2_def using len p l1 by (intro bit_in_or_update) simp_all
  moreover have "bit_in st1 p = (bit_in st p \<or> (p div 8 = n div 8 \<and>
           bit (topNBits bt (8 - n mod 8)) (7 - p mod 8)))"
    unfolding st1_def using len p by (intro bit_in_or_update) simp_all
  ultimately have "bit_in st2 p = (bit_in st p \<or> (n \<le> p \<and> p < n + 8 \<and> bit bt (7 - (p - n))))"
    using full_byte_bit [of p n bt] by blast
  moreover have "n \<le> p \<Longrightarrow> \<not> bit_in st p" using z p by (simp add: zero_from_def)
  moreover have "bit_in [bt] (p - n) = bit bt (7 - (p - n))" if "n \<le> p" "p < n + 8"
  proof -
    have "p - n < 8" using that by arith
    then show ?thesis by (simp add: bit_in_Cons)
  qed
  ultimately show "bit_in st2 p = (if p < n then bit_in st p else p < n + 8 \<and> bit_in [bt] (p - n))"
    by (cases "p < n"; cases "p < n + 8") auto
qed


lemma appendFullBytes_ok:
  assumes "backingStore s = Some st" "nextBitIndex s = n"
    and "n div 8 + length bts < length st" "zero_from st n"
  shows "\<exists>st1. appendFullBytes (n mod 8) (8 - n mod 8) bts s =
                 (None, s\<lparr>nextBitIndex := n + 8 * length bts, backingStore := Some st1\<rparr>)
               \<and> appended st n bts (8 * length bts) st1"
  using assms
proof (induction bts arbitrary: s st n)
  case Nil
  have "appended st n [] 0 st" using Nil.prems(4)
    by (auto simp add: appended_def zero_from_def)
  moreover have "s\<lparr>nextBitIndex := n, backingStore := Some st\<rparr> = s"
    using Nil.prems by simp
  ultimately show ?case by (intro exI [of _ st]) simp
next
  case (Cons bt bts)
  define st1 where "st1 = st[n div 8 := st ! (n div 8) OR topNBits bt (8 - n mod 8)]"
  define st2 where "st2 = st1[n div 8 + 1 := st1 ! (n div 8 + 1)
                        OR push_bit (8 - n mod 8) (bottomNBits bt (n mod 8))]"
  define s2 where "s2 = s\<lparr>backingStore := Some st2, nextBitIndex := n + 8\<rparr>"
  have len: "n div 8 + 1 < length st" using Cons.prems(3) by simp
  have step: "appended st n [bt] 8 st2"
    unfolding st2_def st1_def using len Cons.prems(4) by (rule full_byte_step)
  have l2: "length st2 = length st" using step by (simp add: appended_def)
  have o1: "or_at (n div 8) (topNBits bt (8 - n mod 8)) s = Some (s\<lparr>backingStore := Some st1\<rparr>)"
    unfolding st1_def using Cons.prems(1) len by (intro or_at_Some) simp_all
  have o2: "or_at (n div 8 + 1) (push_bit (8 - n mod 8) (bottomNBits bt (n mod 8)))
              (s\<lparr>backingStore := Some st1\<rparr>) = Some (s\<lparr>backingStore := Some st2\<rparr>)"
    using or_at_Some [of "s\<lparr>backingStore := Some st1\<rparr>" st1 "n div 8 + 1"] len
    by (simp add: st2_def st1_def)
  have unfold: "appendFullBytes (n mod 8) (8 - n mod 8) (bt # bts) s =
                appendFullBytes (n mod 8) (8 - n mod 8) bts s2"
    using o1 o2 Cons.prems(2) by (simp add: s2_def Let_def)
  have "\<exists>st3. appendFullBytes ((n + 8) mod 8) (8 - (n + 8) mod 8) bts s2 =
                 (None, s2\<lparr>nextBitIndex := n + 8 + 8 * length bts, backingStore := Some st3\<rparr>)
               \<and> appended st2 (n + 8) bts (8 * length bts) st3"
  proof (rule Cons.IH)
    show "backingStore s2 = Some st2" by (simp add: s2_def)
    show "nextBitIndex s2 = n + 8" by (simp add: s2_def)
    show "(n + 8) div 8 + length bts < length st2" using Cons.prems(3) l2 by simp
    show "zero_from st2 (n + 8)" using step by (rule appended_zero_from)
  qed
  then obtain st3 where
    r: "appendFullBytes (n mod 8) (8 - n mod 8) bts s2 =
          (None, s2\<lparr>nextBitIndex := n + 8 + 8 * length bts, backingStore := Some st3\<rparr>)"
    and a: "appended st2 (n + 8) bts (8 * length bts) st3" by auto
  have "appended st n (bt # bts) (8 + 8 * length bts) st3"
  proof (rule appended_trans [where srcb = bts and kb = "8 * length bts" and sta = st2])
    show "appended st n (bt # bts) 8 st2"
      using step by (rule appended_src_cong) (simp add: bit_in_Cons)
    show "appended st2 (n + 8) bts (8 * length bts) st3" by (rule a)
    show "bit_in bts j = bit_in (bt # bts) (8 + j)" for j by (simp add: bit_in_Cons)
  qed
  moreover have "s2\<lparr>nextBitIndex := n + 8 + 8 * length bts, backingStore := Some st3\<rparr>
      = s\<lparr>nextBitIndex := n + 8 * length (bt # bts), backingStore := Some st3\<rparr>"
    by (simp add: s2_def)
  ultimately show ?case using unfold r by (intro exI [of _ st3]) (simp add: add.commute)
qed


lemma last_top_bit:
  assumes "m < 8" "off < 8" "tc \<le> 8 - off"
  shows "bit (push_bit (8 - off - tc) (topNBits b tc)) (7 - m) \<longleftrightarrow>
           off \<le> m \<and> m < off + tc \<and> bit b (7 - (m - off))"
proof (cases "off \<le> m \<and> m < off + tc")
  case True
  then have "7 - m - (8 - off - tc) + (8 - tc) = 7 - (m - off)" using assms by arith
  then have eq: "bit b (7 - m - (8 - off - tc) + (8 - tc)) = bit b (7 - (m - off))"
    by (rule arg_cong)
  have "8 - off - tc \<le> 7 - m" "7 - m < 8" "tc \<le> 8" using True assms by arith+
  then show ?thesis using True eq unfolding bit_push_bit_iff bit_topNBits by simp
next
  case False
  show ?thesis
  proof (cases "m < off + tc")
    case True
    then have lt: "m < off" using False by simp
    then have "\<not> 7 - m - (8 - off - tc) + (8 - tc) < LENGTH(8)" using assms True by simp
    then have "\<not> bit b (7 - m - (8 - off - tc) + (8 - tc))" using bit_imp_le_length by blast
    then show ?thesis using lt unfolding bit_push_bit_iff bit_topNBits by simp
  next
    case F2: False
    then have "\<not> 8 - off - tc \<le> 7 - m" using assms by arith
    then show ?thesis using False unfolding bit_push_bit_iff by simp
  qed
qed

lemma byte_shift_count:
  assumes "tc + bc \<le> 8"
  shows "unat (8 - of_nat tc - of_nat bc :: byte) = 8 - tc - bc"
proof -
  have "(of_nat (8 - tc - bc) :: byte) = of_nat (8 - tc) - of_nat bc"
    using assms by (intro of_nat_diff) arith
  also have "\<dots> = of_nat 8 - of_nat tc - of_nat bc"
    using assms by (simp add: of_nat_diff)
  finally have "(8 - of_nat tc - of_nat bc :: byte) = of_nat (8 - tc - bc)" by simp
  moreover have "unat (of_nat (8 - tc - bc) :: byte) = 8 - tc - bc"
    by (simp add: unat_of_nat)
  ultimately show ?thesis by simp
qed

lemma last_bottom_bit:
  assumes "m < 8" "tc + bc < 8"
  shows "bit (push_bit (8 - bc)
            (bottomNBits (drop_bit (unat (8 - of_nat tc - of_nat bc :: byte)) b) bc)) (7 - m)
         \<longleftrightarrow> m < bc \<and> bit b (7 - (tc + m))"
proof (cases "m < bc")
  case True
  have sc: "unat (8 - of_nat tc - of_nat bc :: byte) = 8 - tc - bc"
    using assms by (intro byte_shift_count) simp
  have "8 - tc - bc + (7 - m - (8 - bc)) = 7 - (tc + m)" using True assms by arith
  then have eq: "bit b (8 - tc - bc + (7 - m - (8 - bc))) = bit b (7 - (tc + m))"
    by (rule arg_cong)
  have "8 - bc \<le> 7 - m" "7 - m - (8 - bc) < bc" "7 - m < 8" using True assms by arith+
  then show ?thesis using True eq
    unfolding bit_push_bit_iff bit_bottomNBits sc bit_drop_bit_eq by simp
next
  case False
  then have "\<not> 8 - bc \<le> 7 - m" using assms by arith
  then show ?thesis using False unfolding bit_push_bit_iff by simp
qed


lemma last_byte_bit_aux:
  fixes q m q0 off t :: nat and b :: byte
  assumes m: "m < 8" "off < 8" and t: "t < 8"
  defines "tc \<equiv> min t (8 - off)"
  defines "bc \<equiv> t - tc"
  defines "T \<equiv> bit (push_bit (8 - off - tc) (topNBits b tc)) (7 - m)"
  defines "B \<equiv> bit (push_bit (8 - bc)
              (bottomNBits (drop_bit (unat (8 - of_nat tc - of_nat bc :: byte)) b) bc)) (7 - m)"
  shows "(q = q0 \<and> T) \<or> (0 < bc \<and> q = q0 + 1 \<and> B)
         \<longleftrightarrow> 8 * q0 + off \<le> 8 * q + m \<and> 8 * q + m < 8 * q0 + off + t
              \<and> bit b (7 - (8 * q + m - (8 * q0 + off)))"
proof -
  have tc: "tc \<le> 8 - off" "tc + bc < 8" "tc + bc = t" using t by (simp_all add: tc_def bc_def)
  have T: "T \<longleftrightarrow> off \<le> m \<and> m < off + tc \<and> bit b (7 - (m - off))"
    unfolding T_def using m tc(1) by (rule last_top_bit)
  have B: "B \<longleftrightarrow> m < bc \<and> bit b (7 - (tc + m))"
    unfolding B_def using m(1) tc(2) by (rule last_bottom_bit)
  consider "q = q0" | "q = q0 + 1" "0 < bc" | "q = q0 + 1" "bc = 0" | "q < q0" | "q0 + 1 < q"
    by arith
  then show ?thesis
  proof cases
    case 1
    have a: "m < off + tc \<longleftrightarrow> m < off + t" using m t by (auto simp add: tc_def)
    have "8 * q0 + off \<le> 8 * q + m \<longleftrightarrow> off \<le> m"
      "8 * q + m < 8 * q0 + off + t \<longleftrightarrow> m < off + t"
      "8 * q + m - (8 * q0 + off) = m - off"
      using 1 by simp_all
    then show ?thesis using 1 T a by simp
  next
    case 2
    then have tc8: "tc = 8 - off" using t by (auto simp add: tc_def bc_def min_def split: if_splits)
    have "8 * q0 + off \<le> 8 * q + m"
      "8 * q + m < 8 * q0 + off + t \<longleftrightarrow> m < bc"
      "8 * q + m - (8 * q0 + off) = tc + m"
      using 2 tc8 m t tc(3) by (simp_all add: bc_def) arith
    then show ?thesis using 2 B by simp
  next
    case 3
    then have "t \<le> 8 - off" by (simp add: bc_def tc_def min_def split: if_splits)
    then have "\<not> 8 * q + m < 8 * q0 + off + t" using 3 m by simp
    then show ?thesis using 3 by simp
  next
    case 4
    then have "\<not> 8 * q0 + off \<le> 8 * q + m" using m by simp
    then show ?thesis using 4 by simp
  next
    case 5
    then have "\<not> 8 * q + m < 8 * q0 + off + t" using m t by simp
    then show ?thesis using 5 by simp
  qed
qed

lemma last_byte_bit:
  fixes n p t :: nat
  assumes "t < 8"
  defines "tc \<equiv> min t (8 - n mod 8)"
  defines "bc \<equiv> t - tc"
  shows "(p div 8 = n div 8 \<and>
            bit (push_bit (8 - n mod 8 - tc) (topNBits b tc)) (7 - p mod 8)) \<or>
         (0 < bc \<and> p div 8 = n div 8 + 1 \<and>
            bit (push_bit (8 - bc)
              (bottomNBits (drop_bit (unat (8 - of_nat tc - of_nat bc :: byte)) b) bc))
              (7 - p mod 8))
         \<longleftrightarrow> n \<le> p \<and> p < n + t \<and> bit b (7 - (p - n))"
  using last_byte_bit_aux [of "p mod 8" "n mod 8" t "p div 8" "n div 8" b] assms(1)
  unfolding tc_def bc_def by simp


lemma appendLastByte_ok:
  fixes b :: byte
  assumes st: "backingStore s = Some st" "nextBitIndex s = n"
    and len: "n div 8 + 1 < length st" and z: "zero_from st n"
  shows "\<exists>st1. appendLastByte sz (8 - n mod 8) b s =
                 (None, s\<lparr>nextBitIndex := n + sz mod 8, backingStore := Some st1\<rparr>)
               \<and> appended st n [b] (sz mod 8) st1"
proof -
  define t where "t = sz mod 8"
  define tc where "tc = min t (8 - n mod 8)"
  define bc where "bc = t - tc"
  define shiftedTop where "shiftedTop = push_bit (8 - n mod 8 - tc) (topNBits b tc)"
  define shiftedBottom where "shiftedBottom = push_bit (8 - bc)
      (bottomNBits (drop_bit (unat (8 - of_nat tc - of_nat bc :: byte)) b) bc)"
  define st1 where "st1 = st[n div 8 := st ! (n div 8) OR shiftedTop]"
  define st2 where "st2 = st1[n div 8 + 1 := st1 ! (n div 8 + 1) OR shiftedBottom]"
  define st3 where "st3 = (if 0 < bc then st2 else st1)"
  have t: "t < 8" by (simp add: t_def)
  have sum: "tc + bc = t" by (simp add: tc_def bc_def)
  have idx: "(n + tc) div 8 = n div 8 + 1" if "0 < bc"
  proof -
    have "tc = 8 - n mod 8" using that by (auto simp add: tc_def bc_def min_def split: if_splits)
    then have "n + tc = 8 * (n div 8) + 8" by presburger
    then show ?thesis by simp
  qed
  have o1: "or_at (n div 8) shiftedTop s = Some (s\<lparr>backingStore := Some st1\<rparr>)"
    unfolding st1_def using st(1) len by (intro or_at_Some) simp_all
  have o2: "or_at (n div 8 + 1) shiftedBottom (s\<lparr>backingStore := Some st1, nextBitIndex := n + tc\<rparr>)
              = Some (s\<lparr>backingStore := Some st2, nextBitIndex := n + tc\<rparr>)"
    using or_at_Some [of "s\<lparr>backingStore := Some st1, nextBitIndex := n + tc\<rparr>" st1 "n div 8 + 1"] len
    by (simp add: st2_def st1_def)
  have unfolded: "appendLastByte sz (8 - n mod 8) b s =
       (case or_at (n div 8) shiftedTop s of
           None \<Rightarrow> (Some IndexOutOfRange, s)
         | Some s1 \<Rightarrow>
             (if 0 < bc then
                (case or_at (nextBitIndex (s1\<lparr>nextBitIndex := nextBitIndex s1 + tc\<rparr>) div 8)
                        shiftedBottom (s1\<lparr>nextBitIndex := nextBitIndex s1 + tc\<rparr>) of
                   None \<Rightarrow> (Some IndexOutOfRange, s1\<lparr>nextBitIndex := nextBitIndex s1 + tc\<rparr>)
                 | Some s3 \<Rightarrow> (None, s3\<lparr>nextBitIndex := nextBitIndex s3 + bc\<rparr>))
              else (None, s1\<lparr>nextBitIndex := nextBitIndex s1 + tc\<rparr>)))"
    unfolding appendLastByte_def Let_def st(2) shiftedTop_def shiftedBottom_def bc_def tc_def t_def
    by (rule refl)
  have run: "appendLastByte sz (8 - n mod 8) b s =
               (None, s\<lparr>nextBitIndex := n + t, backingStore := Some st3\<rparr>)"
  proof (cases "0 < bc")
    case True
    have "n + tc + bc = n + t" using sum by simp
    moreover have "appendLastByte sz (8 - n mod 8) b s =
       (case or_at (n div 8) shiftedTop s of
           None \<Rightarrow> (Some IndexOutOfRange, s)
         | Some s1 \<Rightarrow>
             (if 0 < bc then
                (case or_at (nextBitIndex (s1\<lparr>nextBitIndex := nextBitIndex s1 + tc\<rparr>) div 8)
                        shiftedBottom (s1\<lparr>nextBitIndex := nextBitIndex s1 + tc\<rparr>) of
                   None \<Rightarrow> (Some IndexOutOfRange, s1\<lparr>nextBitIndex := nextBitIndex s1 + tc\<rparr>)
                 | Some s3 \<Rightarrow> (None, s3\<lparr>nextBitIndex := nextBitIndex s3 + bc\<rparr>))
              else (None, s1\<lparr>nextBitIndex := nextBitIndex s1 + tc\<rparr>)))"
      by (rule unfolded)
    ultimately show ?thesis
      using True o1 o2 idx [OF True] st(2) by (simp add: st3_def)
  next
    case False
    then have "tc = t" using sum by simp
    then show ?thesis
      using False o1 st(2) by (simp add: unfolded st3_def)
  qed
  have app: "appended st n [b] t st3"
    unfolding appended_def
  proof (intro conjI allI impI)
    show "length st3 = length st" by (simp add: st3_def st2_def st1_def)
  next
    fix p assume p: "p < 8 * length st"
    have l1: "length st1 = length st" by (simp add: st1_def)
    have b1: "bit_in st1 p = (bit_in st p \<or> (p div 8 = n div 8 \<and> bit shiftedTop (7 - p mod 8)))"
      unfolding st1_def using len p by (intro bit_in_or_update) simp_all
    have b2: "bit_in st2 p = (bit_in st1 p \<or>
                (p div 8 = n div 8 + 1 \<and> bit shiftedBottom (7 - p mod 8)))"
      unfolding st2_def using len p l1 by (intro bit_in_or_update) simp_all
    have "bit_in st3 p = (bit_in st p \<or> (p div 8 = n div 8 \<and> bit shiftedTop (7 - p mod 8))
            \<or> (0 < bc \<and> p div 8 = n div 8 + 1 \<and> bit shiftedBottom (7 - p mod 8)))"
      using b1 b2 by (auto simp add: st3_def)
    moreover have "(p div 8 = n div 8 \<and> bit shiftedTop (7 - p mod 8))
            \<or> (0 < bc \<and> p div 8 = n div 8 + 1 \<and> bit shiftedBottom (7 - p mod 8))
          \<longleftrightarrow> n \<le> p \<and> p < n + t \<and> bit b (7 - (p - n))"
      unfolding shiftedTop_def shiftedBottom_def bc_def tc_def using t by (rule last_byte_bit)
    ultimately have "bit_in st3 p = (bit_in st p \<or> (n \<le> p \<and> p < n + t \<and> bit b (7 - (p - n))))"
      by blast
    moreover have "n \<le> p \<Longrightarrow> \<not> bit_in st p" using z p by (simp add: zero_from_def)
    moreover have "bit_in [b] (p - n) = bit b (7 - (p - n))" if "n \<le> p" "p < n + t"
    proof -
      have "p - n < 8" using that t by arith
      then show ?thesis by (simp add: bit_in_Cons)
    qed
    ultimately show "bit_in st3 p = (if p < n then bit_in st p else p < n + t \<and> bit_in [b] (p - n))"
      by (cases "p < n"; cases "p < n + t") auto
  qed
  show ?thesis using run app unfolding t_def by blast
qed


lemma bytesNeeded_alt: "bytesNeededForBits n = (n + 7) div 8"
  unfolding bytesNeededForBits_def Let_def by presburger

lemma bit_in_take: "j < 8 * k \<Longrightarrow> bit_in (take k bs) j = bit_in bs j"
proof -
  assume "j < 8 * k"
  then have "j div 8 < k" by simp
  then show ?thesis by (simp add: bit_in_def)
qed

lemma bit_in_nth: "j < 8 \<Longrightarrow> bit_in bs (8 * k + j) = bit_in [bs ! k] j"
  by (simp add: bit_in_def)

lemma last_room:
  fixes n sz :: nat
  assumes "sz mod 8 \<noteq> 0"
  shows "n div 8 + sz div 8 + 1 \<le> (n + sz + 7) div 8"
proof -
  have "8 * (n div 8) \<le> n" by simp
  moreover have "8 * (sz div 8) + sz mod 8 = sz" by simp
  ultimately have "8 * (n div 8 + sz div 8 + 1) \<le> n + sz + 7" using assms by arith
  then show ?thesis by simp
qed

lemma AppendBits_ok:
  assumes ok: "appendable s" and len: "bytesNeededForBits sz \<le> length bits"
  shows "\<exists>st1. AppendBits sz bits s =
            Some (None, s\<lparr>nextBitIndex := nextBitIndex s + sz, backingStore := Some st1\<rparr>)
        \<and> bytesNeededForBits (nextBitIndex s + sz) < length st1
        \<and> length (slice_bytes (backingStore s)) \<le> length st1
        \<and> (\<forall>p<8 * length st1. bit_in st1 p =
              (if p < nextBitIndex s then bit_in (slice_bytes (backingStore s)) p
               else p < nextBitIndex s + sz \<and> bit_in bits (p - nextBitIndex s)))"
proof -
  define n where "n = nextBitIndex s"
  define st0 where "st0 = slice_bytes (backingStore s)"
  define nf where "nf = sz div 8"
  have ok': "backingStore s = None \<or> 0 < length st0" "n \<le> 8 * length st0" "zero_from st0 n"
    using ok by (simp_all add: appendable_def n_def st0_def)
  obtain k where ens: "ensureSize (bytesNeededForBits (n + sz)) s =
             Some (s\<lparr>backingStore := Some (st0 @ replicate k 0)\<rparr>)"
      and big: "bytesNeededForBits (n + sz) < length st0 + k"
    using ensureSize_ok [of s "bytesNeededForBits (n + sz)"] ok'(1) unfolding st0_def by blast
  define sta where "sta = st0 @ replicate k 0"
  define s1 where "s1 = s\<lparr>backingStore := Some sta\<rparr>"
  have n1: "nextBitIndex s1 = n" by (simp add: s1_def n_def)
  have la: "length sta = length st0 + k" by (simp add: sta_def)
  have za: "zero_from sta n"
    using ok'(3) by (simp add: zero_from_def sta_def bit_in_append_zeros)
  have nfl: "length (take nf bits) = nf"
    using len by (simp add: bytesNeeded_alt nf_def)
  have room: "n div 8 + nf < length sta"
    using big la unfolding bytesNeeded_alt nf_def by arith
  obtain stb where full: "appendFullBytes (n mod 8) (8 - n mod 8) (take nf bits) s1 =
        (None, s1\<lparr>nextBitIndex := n + 8 * nf, backingStore := Some stb\<rparr>)"
      and ab: "appended sta n (take nf bits) (8 * nf) stb"
    using appendFullBytes_ok [of s1 sta n "take nf bits"] room za nfl n1
    by (auto simp add: s1_def)
  define s2 where "s2 = s1\<lparr>nextBitIndex := n + 8 * nf, backingStore := Some stb\<rparr>"
  have lb: "length stb = length sta" using ab by (simp add: appended_def)
  have ab': "appended sta n bits (8 * nf) stb"
    using ab by (rule appended_src_cong) (simp add: bit_in_take)
  have "\<exists>stc. AppendBits sz bits s =
            Some (None, s\<lparr>nextBitIndex := n + sz, backingStore := Some stc\<rparr>)
          \<and> appended sta n bits sz stc"
  proof (cases "sz mod 8 = 0")
    case True
    then have "8 * nf = sz" unfolding nf_def by presburger
    moreover have "AppendBits sz bits s = Some (None, s2)"
      using len ens full True
      unfolding s2_def s1_def sta_def nf_def n_def st0_def
      by (simp add: AppendBits_def Let_def)
    ultimately show ?thesis using ab' by (intro exI [of _ stb]) (simp add: s2_def s1_def)
  next
    case False
    have "n div 8 + nf + 1 \<le> (n + sz + 7) div 8"
      using False unfolding nf_def by (rule last_room)
    moreover have "(n + 8 * nf) div 8 = n div 8 + nf" by simp
    moreover have "(n + sz + 7) div 8 < length stb"
      using big la lb unfolding bytesNeeded_alt by linarith
    ultimately have room2: "(n + 8 * nf) div 8 + 1 < length stb"
      by linarith
    have zb: "zero_from stb (n + 8 * nf)" using ab by (rule appended_zero_from)
    have m8: "(n + 8 * nf) mod 8 = n mod 8" by simp
    have b2: "backingStore s2 = Some stb" and n2: "nextBitIndex s2 = n + 8 * nf"
      by (simp_all add: s2_def)
    have "\<exists>stc. appendLastByte sz (8 - (n + 8 * nf) mod 8) (bits ! nf) s2 =
          (None, s2\<lparr>nextBitIndex := n + 8 * nf + sz mod 8, backingStore := Some stc\<rparr>)
        \<and> appended stb (n + 8 * nf) [bits ! nf] (sz mod 8) stc"
      using b2 n2 room2 zb by (rule appendLastByte_ok)
    then obtain stc where last: "appendLastByte sz (8 - n mod 8) (bits ! nf) s2 =
          (None, s2\<lparr>nextBitIndex := n + 8 * nf + sz mod 8, backingStore := Some stc\<rparr>)"
        and ac: "appended stb (n + 8 * nf) [bits ! nf] (sz mod 8) stc"
      unfolding m8 by (elim exE conjE)
    have tot: "8 * nf + sz mod 8 = sz" unfolding nf_def by presburger
    have "appended sta n bits (8 * nf + sz mod 8) stc"
      using ab' ac
    proof (rule appended_trans)
      fix j assume "j < sz mod 8"
      moreover have "sz mod 8 < 8" by simp
      ultimately have "j < 8" by linarith
      then show "bit_in [bits ! nf] j = bit_in bits (8 * nf + j)" by (simp add: bit_in_nth)
    qed
    then have "appended sta n bits sz stc" unfolding tot .
    moreover have "AppendBits sz bits s =
        Some (None, s2\<lparr>nextBitIndex := n + 8 * nf + sz mod 8, backingStore := Some stc\<rparr>)"
      using len ens full False last
      unfolding s2_def s1_def sta_def nf_def n_def st0_def
      by (simp add: AppendBits_def Let_def)
    ultimately show ?thesis using tot
      by (intro exI [of _ stc]) (simp add: s2_def s1_def add.assoc)
  qed
  then obtain stc where run: "AppendBits sz bits s =
            Some (None, s\<lparr>nextBitIndex := n + sz, backingStore := Some stc\<rparr>)"
      and app: "appended sta n bits sz stc" by blast
  have lc: "length stc = length sta" using app by (simp add: appended_def)
  have "bit_in stc p = (if p < n then bit_in st0 p else p < n + sz \<and> bit_in bits (p - n))"
    if "p < 8 * length stc" for p
  proof -
    have "bit_in stc p = (if p < n then bit_in sta p else p < n + sz \<and> bit_in bits (p - n))"
      using app that lc by (simp add: appended_def)
    moreover have "bit_in sta p = bit_in st0 p" if "p < n"
      using that ok'(2) by (simp add: sta_def bit_in_append_zeros)
    ultimately show ?thesis by simp
  qed
  then show ?thesis
    using run big la lc unfolding n_def st0_def by (intro exI [of _ stc]) simp
qed

section \<open>The invariant of reachable streams\<close>

lemma zero_from_Nil: "zero_from [] n"
  by (simp add: zero_from_def)

lemma bytesNeeded_less_iff: "bytesNeededForBits n < k \<longleftrightarrow> n + 8 \<le> 8 * k"
  unfolding bytesNeeded_alt by arith

lemma bytesNeeded_le_iff: "bytesNeededForBits n \<le> k \<longleftrightarrow> n \<le> 8 * k"
  unfolding bytesNeeded_alt by arith

lemma wellformed_appendable: "wellformed s \<Longrightarrow> appendable s"
  by (auto simp add: wellformed_def appendable_def slice_bytes_def zero_from_Nil
      bytesNeeded_less_iff split: option.splits)

lemma wellformed_empty: "wellformed emptyBitStream"
  by (simp add: wellformed_def emptyBitStream_def)

lemma AppendBits_spec:
  assumes ok: "appendable s" and len: "bytesNeededForBits sz \<le> length bits"
  shows "\<exists>s1. AppendBits sz bits s = Some (None, s1) \<and> wellformed s1
           \<and> nextBitIndex s1 = nextBitIndex s + sz
           \<and> (\<forall>p<nextBitIndex s. bit_in (slice_bytes (backingStore s1)) p
                                  = bit_in (slice_bytes (backingStore s)) p)
           \<and> (\<forall>j. j < sz \<longrightarrow> bit_in (slice_bytes (backingStore s1)) (nextBitIndex s + j) = bit_in bits j)"
proof -
  obtain st1 where run: "AppendBits sz bits s =
        Some (None, s\<lparr>nextBitIndex := nextBitIndex s + sz, backingStore := Some st1\<rparr>)"
    and big: "bytesNeededForBits (nextBitIndex s + sz) < length st1"
    and bits: "\<And>p. p < 8 * length st1 \<Longrightarrow> bit_in st1 p =
              (if p < nextBitIndex s then bit_in (slice_bytes (backingStore s)) p
               else p < nextBitIndex s + sz \<and> bit_in bits (p - nextBitIndex s))"
    using AppendBits_ok [OF ok len] by blast
  define s1 where "s1 = s\<lparr>nextBitIndex := nextBitIndex s + sz, backingStore := Some st1\<rparr>"
  have in_store: "p < 8 * length st1" if "p < nextBitIndex s + sz" for p
    using that big unfolding bytesNeeded_less_iff by simp
  have "wellformed s1"
    using big bits by (simp add: wellformed_def s1_def zero_from_def)
  moreover have "bit_in (slice_bytes (backingStore s1)) p = bit_in (slice_bytes (backingStore s)) p"
    if "p < nextBitIndex s" for p
    using that bits [of p] in_store [of p] by (simp add: s1_def slice_bytes_def)
  moreover have "bit_in (slice_bytes (backingStore s1)) (nextBitIndex s + j) = bit_in bits j"
    if "j < sz" for j
    using that bits [of "nextBitIndex s + j"] in_store [of "nextBitIndex s + j"]
    by (simp add: s1_def slice_bytes_def)
  ultimately show ?thesis using run unfolding s1_def [symmetric]
    by (intro exI [of _ s1]) (simp add: s1_def)
qed

lemma AppendBits_TooFew:
  "length bits < bytesNeededForBits sz \<Longrightarrow> AppendBits sz bits s = Some (Some TooFewBytes, s)"
  by (simp add: AppendBits_def)

lemma AppendBits_wellformed:
  assumes "wellformed s" "AppendBits sz bits s = Some (r, s1)"
  shows "wellformed s1"
proof (cases "length bits < bytesNeededForBits sz")
  case True
  then show ?thesis using assms by (simp add: AppendBits_TooFew)
next
  case False
  then have "bytesNeededForBits sz \<le> length bits" by simp
  from AppendBits_spec [OF wellformed_appendable [OF assms(1)] this]
  show ?thesis using assms(2) by auto
qed

lemma and_one_of_bool: "drop_bit k w AND 1 = of_bool (bit w k)" for w :: byte
  by (simp add: and_one_eq bit_iff_odd_drop_bit mod_2_eq_odd)

lemma msb_bit_of_bool: "msb_bit bs p = of_bool (bit_in bs p)"
  by (simp add: msb_bit_def bit_in_def and_one_of_bool)

lemma msb_bit_eq_iff: "msb_bit bs p = msb_bit cs q \<longleftrightarrow> bit_in bs p = bit_in cs q"
  by (simp add: msb_bit_of_bool)

lemma BitAt_msb_bit:
  "p < nextBitIndex s \<Longrightarrow> nextBitIndex s \<le> 8 * length (slice_bytes (backingStore s)) \<Longrightarrow>
   BitAt s p = Inr (msb_bit (slice_bytes (backingStore s)) p)"
  by (simp add: BitAt_def msb_bit_def Let_def less_mult_imp_div_less mult.commute)

lemma wellformed_covers:
  "wellformed s \<Longrightarrow> nextBitIndex s \<le> 8 * length (slice_bytes (backingStore s))"
  using wellformed_appendable by (simp add: appendable_def)


lemma AppendBit_wellformed:
  "wellformed s \<Longrightarrow> AppendBit b s = Some (r, s1) \<Longrightarrow> wellformed s1"
  by (auto simp add: AppendBit_def split: if_splits dest: AppendBits_wellformed)

lemma AppendUint64_wellformed:
  "wellformed s \<Longrightarrow> AppendUint64 v s = Some (r, s1) \<Longrightarrow> wellformed s1"
  by (auto simp add: AppendUint64_def dest: AppendBits_wellformed)

lemma AppendUint_wellformed:
  "wellformed s \<Longrightarrow> AppendUint v sz s = Some (r, s1) \<Longrightarrow> wellformed s1"
  by (auto simp add: AppendUint_def Let_def split: if_splits dest: AppendBits_wellformed)

lemma AppendBitstream_wellformed:
  "wellformed s \<Longrightarrow> AppendBitstream other s = Some (r, s1) \<Longrightarrow> wellformed s1"
  by (auto simp add: AppendBitstream_def dest: AppendBits_wellformed)

lemma AppendBigInt_wellformed:
  assumes "wellformed s" "AppendBigInt x nbits s = Some (r, s1)"
  shows "wellformed s1"
proof (cases "int (BitLen x) > int_of_uint nbits")
  case True
  then show ?thesis using assms by (simp add: AppendBigInt_def)
next
  case False
  show ?thesis
  proof (cases "make_bytes (uint_add nbits 7 div 8)")
    case (Inl p)
    then show ?thesis using assms False by (simp add: AppendBigInt_def)
  next
    case buf: (Inr buf)
  show ?thesis
  proof (cases "FillBytes x (length buf)")
    case (Inl p)
    then show ?thesis using assms False buf by (simp add: AppendBigInt_def)
  next
    case (Inr bytes)
    show ?thesis
    proof (cases "nbits mod 8 = 0")
      case True
      then show ?thesis using assms False buf Inr
        by (auto simp add: AppendBigInt_def dest: AppendBits_wellformed)
    next
      case nz: False
      show ?thesis
      proof (cases "AppendUint (ucast (bytes ! 0)) (nbits mod 8) s")
        case None
        then show ?thesis using assms False buf Inr nz by (simp add: AppendBigInt_def)
      next
        case (Some a)
        obtain r2 s2 where a: "a = (r2, s2)" by (cases a)
        have w2: "wellformed s2" using assms(1) Some a by (auto dest: AppendUint_wellformed)
        show ?thesis
        proof (cases r2)
          case None
          then show ?thesis using assms False buf Inr nz Some a w2
            by (auto simp add: AppendBigInt_def Let_def dest: AppendBits_wellformed)
        next
          case (Some p)
          then show ?thesis using assms False buf Inr nz \<open>AppendUint _ _ s = Some a\<close> a w2
            by (auto simp add: AppendBigInt_def Let_def)
        qed
      qed
    qed
    qed
  qed
qed

lemma UnmarshalBase32_loop_wellformed:
  "wellformed s \<Longrightarrow> UnmarshalBase32_loop cs s = Some (e, s1) \<Longrightarrow> wellformed s1"
proof (induction cs arbitrary: s)
  case Nil
  then show ?case by simp
next
  case (Cons c cs)
  show ?case
  proof (cases "base32Reversed c")
    case None
    then show ?thesis using Cons.prems by simp
  next
    case (Some v)
    show ?thesis
    proof (cases "AppendUint (ucast v) 5 s")
      case None
      then show ?thesis using Cons.prems Some by simp
    next
      case app: (Some a)
      obtain r2 s2 where a: "a = (r2, s2)" by (cases a)
      have w2: "wellformed s2" using Cons.prems(1) app a by (auto dest: AppendUint_wellformed)
      show ?thesis
      proof (cases r2)
        case None
        then have "UnmarshalBase32_loop cs s2 = Some (e, s1)"
          using Cons.prems(2) Some app a by simp
        with w2 show ?thesis by (rule Cons.IH)
      next
        case (Some p)
        then show ?thesis using Cons.prems(2) \<open>base32Reversed c = Some v\<close> app a w2 by simp
      qed
    qed
  qed
qed

lemma UnmarshalBase32_wellformed:
  assumes "UnmarshalBase32 encoded s = Some (e, s1)"
  shows "wellformed s1"
proof -
  have "wellformed (s\<lparr>backingStore := None, nextBitIndex := 0\<rparr>)"
    by (simp add: wellformed_def)
  then show ?thesis
    using assms unfolding UnmarshalBase32_def by (rule UnmarshalBase32_loop_wellformed)
qed

lemma BitstreamAt_wellformed:
  "BitstreamAt s index sz = Some (Inr s1) \<Longrightarrow> wellformed s1"
  by (auto simp add: BitstreamAt_def split: sum.splits option.splits
      dest: AppendBits_wellformed [OF wellformed_empty])

lemma length_copy_bytes: "length (copy_bytes dst src) = length dst"
  by (simp add: copy_bytes_def Let_def min_def)

lemma bit_in_copy_bytes:
  assumes "p < 8 * n"
  shows "bit_in (copy_bytes (replicate n 0) st) p = (p < 8 * length st \<and> bit_in st p)"
proof -
  have d: "p div 8 < n" using assms by simp
  show ?thesis
  proof (cases "p div 8 < length st")
    case True
    then have "p < 8 * length st" by (simp add: div_less_iff_less_mult mult.commute)
    then show ?thesis using True d
      by (simp add: bit_in_def copy_bytes_def Let_def nth_append)
  next
    case False
    then have "\<not> p < 8 * length st" by (simp add: div_less_iff_less_mult mult.commute)
    then show ?thesis using False d
      by (simp add: bit_in_def copy_bytes_def Let_def nth_append min_def)
  qed
qed

lemma ensureSize_empty_store: "backingStore s = Some [] \<Longrightarrow> ensureSize m s = None"
  by (simp add: ensureSize_def slice_bytes_def grow_zero_diverges)

lemma AppendBits_empty_store:
  "backingStore s = Some [] \<Longrightarrow> bytesNeededForBits sz \<le> length bits \<Longrightarrow>
   AppendBits sz bits s = None"
  by (simp add: AppendBits_def ensureSize_empty_store)


lemma AppendBits_returns_wellformed:
  assumes "appendable s" "AppendBits sz bits s = Some (None, s1)"
  shows "wellformed s1"
proof (cases "length bits < bytesNeededForBits sz")
  case True
  then show ?thesis using assms(2) by (simp add: AppendBits_TooFew)
next
  case False
  then have "bytesNeededForBits sz \<le> length bits" by simp
  from AppendBits_spec [OF assms(1) this]
  show ?thesis using assms(2) by auto
qed

lemma Concat_wellformed:
  assumes a: "wellformed s" and r: "Concat s other = Some (Inr s1)"
  shows "wellformed s1"
proof -
  define n where "n = bytesNeededForBits (Size s + Size other)"
  define st where "st = copy_bytes (replicate n 0) (slice_bytes (backingStore s))"
  define res where "res = \<lparr>nextBitIndex = nextBitIndex s, backingStore = Some st\<rparr>"
  have c: "Concat s other =
      (case AppendBitstream other res of
           None \<Rightarrow> None
         | Some (Some p, _) \<Rightarrow> Some (Inl p)
         | Some (None, r) \<Rightarrow> Some (Inr r))"
    by (simp add: Concat_def Let_def res_def st_def n_def emptyBitStream_def)
  then have run: "AppendBitstream other res = Some (None, s1)"
    using r by (auto split: option.splits)
  have ls: "length st = n" by (simp add: st_def length_copy_bytes)
  have "0 < n"
  proof (rule ccontr)
    assume "\<not> 0 < n"
    then have "backingStore res = Some []" using ls by (simp add: res_def)
    then have "AppendBitstream other res = None \<or>
               AppendBitstream other res = Some (Some TooFewBytes, res)"
      unfolding AppendBitstream_def
      by (cases "length (slice_bytes (backingStore other)) < bytesNeededForBits (Size other)")
         (simp_all add: AppendBits_TooFew AppendBits_empty_store)
    then show False using run by auto
  qed
  have cov: "nextBitIndex s \<le> 8 * n"
    unfolding n_def bytesNeeded_alt Size_def by arith
  have "zero_from st (nextBitIndex s)"
    unfolding zero_from_def
  proof
    fix p assume p: "p \<in> {nextBitIndex s..<8 * length st}"
    then have "bit_in st p = (p < 8 * length (slice_bytes (backingStore s))
                              \<and> bit_in (slice_bytes (backingStore s)) p)"
      unfolding st_def using ls by (intro bit_in_copy_bytes) (simp add: st_def)
    moreover have "zero_from (slice_bytes (backingStore s)) (nextBitIndex s)"
      using wellformed_appendable [OF a] by (simp add: appendable_def)
    ultimately show "\<not> bit_in st p" using p by (auto simp add: zero_from_def)
  qed
  then have "appendable res"
    using \<open>0 < n\<close> cov ls by (simp add: appendable_def res_def slice_bytes_def)
  then show ?thesis
    using run unfolding AppendBitstream_def by (rule AppendBits_returns_wellformed)
qed

lemma reachable_wellformed: "reachable s \<Longrightarrow> wellformed s"
proof (induction rule: reachable.induct)
  case reach_empty
  show ?case by (rule wellformed_empty)
next
  case (reach_AppendBits s sz bits r s1)
  then show ?case by (blast intro: AppendBits_wellformed)
next
  case (reach_AppendBit s b r s1)
  then show ?case by (blast intro: AppendBit_wellformed)
next
  case (reach_AppendUint64 s v r s1)
  then show ?case by (blast intro: AppendUint64_wellformed)
next
  case (reach_AppendUint s v sz r s1)
  then show ?case by (blast intro: AppendUint_wellformed)
next
  case (reach_AppendBigInt s x nbits r s1)
  then show ?case by (blast intro: AppendBigInt_wellformed)
next
  case (reach_AppendBitstream s other r s1)
  then show ?case by (blast intro: AppendBitstream_wellformed)
next
  case (reach_Concat s other s1)
  then show ?case by (blast intro: Concat_wellformed)
next
  case (reach_BitstreamAt s index sz s1)
  then show ?case by (blast intro: BitstreamAt_wellformed)
next
  case (reach_UnmarshalBase32 s encoded e s1)
  then show ?case by (blast intro: UnmarshalBase32_wellformed)
qed

section \<open>Appending preserves and stores bits\<close>

lemma AppendBits_reachable:
  assumes "reachable s" "bytesNeededForBits sz \<le> length bits"
  shows "\<exists>s1. AppendBits sz bits s = Some (None, s1) \<and> wellformed s1
           \<and> nextBitIndex s1 = nextBitIndex s + sz
           \<and> (\<forall>p<nextBitIndex s. bit_in (slice_bytes (backingStore s1)) p
                                  = bit_in (slice_bytes (backingStore s)) p)
           \<and> (\<forall>j. j < sz \<longrightarrow> bit_in (slice_bytes (backingStore s1)) (nextBitIndex s + j) = bit_in bits j)"
  using assms by (intro AppendBits_spec wellformed_appendable reachable_wellformed)

lemma BitAt_wellformed:
  "wellformed s \<Longrightarrow> p < nextBitIndex s \<Longrightarrow>
   BitAt s p = Inr (msb_bit (slice_bytes (backingStore s)) p)"
  by (intro BitAt_msb_bit wellformed_covers)

text \<open>
  Claim C1. On a reachable stream, a call \<open>AppendBits(size, bits)\<close> with at least
  \<open>ceil(size/8)\<close> source bytes returns normally, advances the length by exactly \<open>size\<close>,
  leaves \<open>BitAt(j)\<close> as it was for every \<open>j\<close> below the old length (where it is a bit, not
  a panic), and makes \<open>BitAt(old + j)\<close> the \<open>j\<close>-th bit of \<open>bits\<close>, most significant bit
  first, for every \<open>j < size\<close>; this for every bit offset of the old length and every
  \<open>size\<close>, a multiple of 8 or not.
\<close>

theorem AppendBits_appends:
  assumes "reachable s" and "bytesNeededForBits sz \<le> length bits"
  shows "\<exists>s1. AppendBits sz bits s = Some (None, s1)
           \<and> Size s1 = Size s + sz
           \<and> (\<forall>j<Size s. BitAt s1 j = BitAt s j \<and> BitAt s j \<noteq> Inl IndexOutOfBounds
                           \<and> BitAt s j \<noteq> Inl IndexOutOfRange)
           \<and> (\<forall>j. j < sz \<longrightarrow> BitAt s1 (Size s + j) = Inr (msb_bit bits j))"
proof -
  obtain s1 where run: "AppendBits sz bits s = Some (None, s1)" and wf1: "wellformed s1"
    and n1: "nextBitIndex s1 = nextBitIndex s + sz"
    and old: "\<And>p. p < nextBitIndex s \<Longrightarrow> bit_in (slice_bytes (backingStore s1)) p
                                  = bit_in (slice_bytes (backingStore s)) p"
    and new: "\<And>j. j < sz \<Longrightarrow>
                bit_in (slice_bytes (backingStore s1)) (nextBitIndex s + j) = bit_in bits j"
    using AppendBits_reachable [OF assms] by blast
  have wf: "wellformed s" using assms(1) by (rule reachable_wellformed)
  have "BitAt s1 j = BitAt s j \<and> BitAt s j \<noteq> Inl IndexOutOfBounds
          \<and> BitAt s j \<noteq> Inl IndexOutOfRange" if "j < Size s" for j
  proof -
    have j: "j < nextBitIndex s" "j < nextBitIndex s1" using that n1 by (simp_all add: Size_def)
    show ?thesis
      using BitAt_wellformed [OF wf j(1)] BitAt_wellformed [OF wf1 j(2)] old [OF j(1)]
      by (simp add: msb_bit_eq_iff)
  qed
  moreover have "BitAt s1 (Size s + j) = Inr (msb_bit bits j)" if "j < sz" for j
  proof -
    have "Size s + j < nextBitIndex s1" using that n1 by (simp add: Size_def)
    from BitAt_wellformed [OF wf1 this] show ?thesis
      using new [OF that] by (simp add: msb_bit_eq_iff Size_def)
  qed
  ultimately show ?thesis using run n1 by (auto simp add: Size_def)
qed

lemma stream_of_three_bits:
  "AppendBits 3 [0xE0] emptyBitStream =
     Some (None, \<lparr>nextBitIndex = 3,
                   backingStore = Some [0xE0, 0, 0, 0, 0, 0, 0, 0, 0, 0, 0, 0, 0, 0, 0, 0]\<rparr>)"
  by code_simp

lemma reachable_three_bits:
  "reachable \<lparr>nextBitIndex = 3,
               backingStore = Some [0xE0, 0, 0, 0, 0, 0, 0, 0, 0, 0, 0, 0, 0, 0, 0, 0]\<rparr>"
  using reach_empty stream_of_three_bits by (rule reach_AppendBits)

theorem AppendBits_appends_witness:
  "reachable \<lparr>nextBitIndex = 3,
               backingStore = Some [0xE0, 0, 0, 0, 0, 0, 0, 0, 0, 0, 0, 0, 0, 0, 0, 0]\<rparr>
   \<and> bytesNeededForBits 12 \<le> length [0xA5, 0x30 :: byte]
   \<and> (\<exists>s1. AppendBits 12 [0xA5, 0x30]
               \<lparr>nextBitIndex = 3,
                backingStore = Some [0xE0, 0, 0, 0, 0, 0, 0, 0, 0, 0, 0, 0, 0, 0, 0, 0]\<rparr>
             = Some (None, s1)
           \<and> Size s1 = 15
           \<and> BitAt s1 2 = Inr 1
           \<and> BitAt s1 (3 + 11) = Inr (msb_bit [0xA5, 0x30] 11))"
proof -
  let ?S = "\<lparr>nextBitIndex = 3,
             backingStore = Some [0xE0, 0, 0, 0, 0, 0, 0, 0, 0, 0, 0, 0, 0, 0, 0, 0 :: byte]\<rparr>"
  have h: "bytesNeededForBits 12 \<le> length [0xA5, 0x30 :: byte]"
    by (simp add: bytesNeededForBits_def)
  obtain s1 where run: "AppendBits 12 [0xA5, 0x30] ?S = Some (None, s1)"
    and sz: "Size s1 = Size ?S + 12"
    and old: "\<And>j. j < Size ?S \<Longrightarrow> BitAt s1 j = BitAt ?S j"
    and new: "\<And>j. j < 12 \<Longrightarrow> BitAt s1 (Size ?S + j) = Inr (msb_bit [0xA5, 0x30] j)"
    using AppendBits_appends [OF reachable_three_bits h] by blast
  have "BitAt s1 2 = BitAt ?S 2" by (rule old) (simp add: Size_def)
  moreover have "BitAt ?S 2 = Inr 1" by code_simp
  moreover have "BitAt s1 (Size ?S + 11) = Inr (msb_bit [0xA5, 0x30] 11)" by (rule new) simp
  ultimately show ?thesis using reachable_three_bits h run sz by (simp add: Size_def)
qed

section \<open>Concat, bounds and the zero tail\<close>

lemma Concat_unfold:
  "Concat s other =
     (case AppendBits (Size other) (slice_bytes (backingStore other))
             \<lparr>nextBitIndex = nextBitIndex s,
              backingStore = Some (copy_bytes (replicate (bytesNeededForBits (Size s + Size other)) 0)
                                     (slice_bytes (backingStore s)))\<rparr> of
        None \<Rightarrow> None
      | Some (Some p, _) \<Rightarrow> Some (Inl p)
      | Some (None, r) \<Rightarrow> Some (Inr r))"
  by (simp add: Concat_def Let_def emptyBitStream_def AppendBitstream_def)

text \<open>
  Claim C5 (termination of every operation) fails on the code: \<open>Concat\<close> of two empty
  streams gives \<open>result\<close> an allocated store of length 0, and the growth loop of
  \<open>AppendBits\<close> then doubles 0 for ever. The call never returns.
\<close>

theorem Concat_empty_diverges: "Concat emptyBitStream emptyBitStream = None"
proof -
  have "AppendBits 0 [] \<lparr>nextBitIndex = 0, backingStore = Some []\<rparr> = None"
    by (rule AppendBits_empty_store) (simp_all add: bytesNeededForBits_def)
  then show ?thesis
    by (simp add: Concat_unfold emptyBitStream_def Size_def slice_bytes_def
        bytesNeededForBits_def copy_bytes_def)
qed

lemma Concat_spec:
  assumes a: "wellformed s" and b: "wellformed other" and pos: "0 < Size s + Size other"
  shows "\<exists>r. Concat s other = Some (Inr r) \<and> wellformed r
           \<and> nextBitIndex r = nextBitIndex s + nextBitIndex other
           \<and> (\<forall>p<nextBitIndex s. bit_in (slice_bytes (backingStore r)) p
                                  = bit_in (slice_bytes (backingStore s)) p)
           \<and> (\<forall>j<nextBitIndex other.
                  bit_in (slice_bytes (backingStore r)) (nextBitIndex s + j)
                  = bit_in (slice_bytes (backingStore other)) j)"
proof -
  define n where "n = bytesNeededForBits (Size s + Size other)"
  define st where "st = copy_bytes (replicate n 0) (slice_bytes (backingStore s))"
  define res where "res = \<lparr>nextBitIndex = nextBitIndex s, backingStore = Some st\<rparr>"
  have ls: "length st = n" by (simp add: st_def length_copy_bytes)
  have "0 < n" using pos unfolding n_def bytesNeeded_alt by arith
  have cov: "nextBitIndex s \<le> 8 * n"
    unfolding n_def bytesNeeded_alt Size_def by arith
  have copy: "bit_in st p = (p < 8 * length (slice_bytes (backingStore s))
                              \<and> bit_in (slice_bytes (backingStore s)) p)" if "p < 8 * n" for p
    unfolding st_def using that by (rule bit_in_copy_bytes)
  have za: "zero_from (slice_bytes (backingStore s)) (nextBitIndex s)"
    using wellformed_appendable [OF a] by (simp add: appendable_def)
  have "zero_from st (nextBitIndex s)"
    using za copy ls by (auto simp add: zero_from_def)
  then have ok: "appendable res"
    using \<open>0 < n\<close> cov ls by (simp add: appendable_def res_def slice_bytes_def)
  have len: "bytesNeededForBits (Size other) \<le> length (slice_bytes (backingStore other))"
    using wellformed_covers [OF b] by (simp add: bytesNeeded_le_iff Size_def)
  obtain r where run: "AppendBits (Size other) (slice_bytes (backingStore other)) res = Some (None, r)"
    and wr: "wellformed r" and nr: "nextBitIndex r = nextBitIndex res + Size other"
    and old: "\<And>p. p < nextBitIndex res \<Longrightarrow>
               bit_in (slice_bytes (backingStore r)) p = bit_in (slice_bytes (backingStore res)) p"
    and new: "\<And>j. j < Size other \<Longrightarrow>
               bit_in (slice_bytes (backingStore r)) (nextBitIndex res + j)
               = bit_in (slice_bytes (backingStore other)) j"
    using AppendBits_spec [OF ok len] by blast
  have c: "Concat s other = Some (Inr r)"
    using run by (simp add: Concat_unfold res_def st_def n_def)
  have "bit_in (slice_bytes (backingStore r)) p = bit_in (slice_bytes (backingStore s)) p"
    if "p < nextBitIndex s" for p
  proof -
    have "p < 8 * n" "p < 8 * length (slice_bytes (backingStore s))"
      using that cov wellformed_covers [OF a] by simp_all
    then show ?thesis using old [of p] that copy [of p] by (simp add: res_def slice_bytes_def)
  qed
  then show ?thesis using c wr nr new by (simp add: res_def Size_def)
qed

text \<open>
  The stream value that \<open>Concat\<close> returns for two reachable streams that are not both
  empty: the bits of the first at the indices below its size, then the bits of the second.
\<close>

lemma Concat_result:
  assumes "reachable a" and "reachable b" and "0 < Size a + Size b"
  shows "\<exists>r. Concat a b = Some (Inr r)
           \<and> Size r = Size a + Size b
           \<and> (\<forall>j<Size a. BitAt r j = BitAt a j \<and> BitAt a j = Inr (msb_bit (slice_bytes (backingStore a)) j))
           \<and> (\<forall>j<Size b. BitAt r (Size a + j) = BitAt b j
                  \<and> BitAt b j = Inr (msb_bit (slice_bytes (backingStore b)) j))"
proof -
  have wa: "wellformed a" and wb: "wellformed b"
    using assms(1,2) by (simp_all add: reachable_wellformed)
  obtain r where run: "Concat a b = Some (Inr r)" and wr: "wellformed r"
    and nr: "nextBitIndex r = nextBitIndex a + nextBitIndex b"
    and old: "\<And>p. p < nextBitIndex a \<Longrightarrow>
               bit_in (slice_bytes (backingStore r)) p = bit_in (slice_bytes (backingStore a)) p"
    and new: "\<And>j. j < nextBitIndex b \<Longrightarrow>
               bit_in (slice_bytes (backingStore r)) (nextBitIndex a + j)
               = bit_in (slice_bytes (backingStore b)) j"
    using Concat_spec [OF wa wb assms(3)] by blast
  have "BitAt r j = BitAt a j \<and> BitAt a j = Inr (msb_bit (slice_bytes (backingStore a)) j)"
    if "j < Size a" for j
  proof -
    have j: "j < nextBitIndex a" "j < nextBitIndex r" using that nr by (simp_all add: Size_def)
    show ?thesis
      using BitAt_wellformed [OF wa j(1)] BitAt_wellformed [OF wr j(2)] old [OF j(1)]
      by (simp add: msb_bit_eq_iff)
  qed
  moreover have "BitAt r (Size a + j) = BitAt b j
      \<and> BitAt b j = Inr (msb_bit (slice_bytes (backingStore b)) j)" if "j < Size b" for j
  proof -
    have j: "j < nextBitIndex b" "Size a + j < nextBitIndex r"
      using that nr by (simp_all add: Size_def)
    show ?thesis
      using BitAt_wellformed [OF wb j(1)] BitAt_wellformed [OF wr j(2)] new [OF j(1)]
      by (simp add: msb_bit_eq_iff Size_def)
  qed
  ultimately show ?thesis using run nr by (simp add: Size_def)
qed

text \<open>
  Claim C7. The allocated store of a reachable stream is strictly longer than
  \<open>ceil(Size/8)\<close> bytes, and a call of \<open>AppendBits\<close> with enough source bytes returns
  normally: none of its accesses to the store, each of which is checked in \<open>or_at\<close>, ends
  in the panic of an index out of range, the write to \<open>nextByteIndex + 1\<close> included.
\<close>

theorem backing_store_in_bounds:
  assumes "reachable s"
  shows "(\<forall>st. backingStore s = Some st \<longrightarrow> bytesNeededForBits (Size s) < length st)
       \<and> (\<forall>sz bits. bytesNeededForBits sz \<le> length bits \<longrightarrow>
             (\<exists>s1. AppendBits sz bits s = Some (None, s1)))"
proof -
  have wf: "wellformed s" using assms by (rule reachable_wellformed)
  have "bytesNeededForBits (Size s) < length st" if "backingStore s = Some st" for st
    using wf that by (simp add: wellformed_def Size_def)
  moreover have "\<exists>s1. AppendBits sz bits s = Some (None, s1)"
    if "bytesNeededForBits sz \<le> length bits" for sz bits
    using AppendBits_spec [OF wellformed_appendable [OF wf] that] by blast
  ultimately show ?thesis by blast
qed

lemma ToBytes_take:
  assumes "wellformed s"
  shows "ToBytes s = take (bytesNeededForBits (Size s)) (slice_bytes (backingStore s))"
proof (cases "backingStore s")
  case None
  then show ?thesis using assms
    by (simp add: ToBytes_def wellformed_def Size_def slice_bytes_def copy_bytes_def
        bytesNeededForBits_def)
next
  case (Some st)
  then have "bytesNeededForBits (nextBitIndex s) < length st"
    using assms by (simp add: wellformed_def)
  then show ?thesis using Some
    by (simp add: ToBytes_def Size_def slice_bytes_def copy_bytes_def Let_def min_def)
qed

text \<open>
  Claim C8. In every reachable stream (so after any sequence of operations) all bits of
  the store from position \<open>Size\<close> on are zero; \<open>ToBytes\<close> is the first \<open>ceil(Size/8)\<close>
  bytes of the store, exactly that many, and the unused bits of its last byte are zero.
\<close>

theorem zero_tail_invariant:
  assumes "reachable s"
  shows "zero_from (slice_bytes (backingStore s)) (Size s)
       \<and> ToBytes s = take (bytesNeededForBits (Size s)) (slice_bytes (backingStore s))
       \<and> length (ToBytes s) = bytesNeededForBits (Size s)
       \<and> zero_from (ToBytes s) (Size s)"
proof -
  have wf: "wellformed s" using assms by (rule reachable_wellformed)
  have z: "zero_from (slice_bytes (backingStore s)) (Size s)"
    using wellformed_appendable [OF wf] by (simp add: appendable_def Size_def)
  have t: "ToBytes s = take (bytesNeededForBits (Size s)) (slice_bytes (backingStore s))"
    using wf by (rule ToBytes_take)
  have l: "length (ToBytes s) = bytesNeededForBits (Size s)"
    by (simp add: ToBytes_def length_copy_bytes)
  have "zero_from (ToBytes s) (Size s)"
    unfolding zero_from_def
  proof
    fix p assume p: "p \<in> {Size s..<8 * length (ToBytes s)}"
    then have lt: "p < 8 * bytesNeededForBits (Size s)" using l by simp
    have le: "bytesNeededForBits (Size s) \<le> length (slice_bytes (backingStore s))"
      using wellformed_covers [OF wf] by (simp add: bytesNeeded_le_iff Size_def)
    have "bit_in (ToBytes s) p = bit_in (slice_bytes (backingStore s)) p"
      unfolding t using lt by (rule bit_in_take)
    moreover have "p < 8 * length (slice_bytes (backingStore s))" using lt le by simp
    ultimately show "\<not> bit_in (ToBytes s) p" using z p by (simp add: zero_from_def)
  qed
  then show ?thesis using z t l by blast
qed


lemma AppendUint_mask: "(push_bit sz 1 - 1 :: uint64) = mask sz"
  by (simp add: mask_eq_exp_minus_1 push_bit_of_1)

lemma AppendUint_value_check:
  fixes v :: uint64
  shows "v AND (push_bit sz 1 - 1) \<noteq> v \<longleftrightarrow> (\<exists>k\<ge>sz. bit v k)"
proof -
  have eq: "v AND (push_bit sz 1 - 1) = take_bit sz v"
    unfolding AppendUint_mask by (simp add: take_bit_eq_mask)
  show ?thesis unfolding eq
  proof
    assume "take_bit sz v \<noteq> v"
    then obtain k where "bit (take_bit sz v) k \<noteq> bit v k" by (auto simp add: bit_eq_iff)
    then have "sz \<le> k \<and> bit v k" by (auto simp add: bit_take_bit_iff)
    then show "\<exists>k\<ge>sz. bit v k" by blast
  next
    assume "\<exists>k\<ge>sz. bit v k"
    then obtain k where k: "sz \<le> k" "bit v k" by blast
    then have "\<not> bit (take_bit sz v) k" by (simp add: bit_take_bit_iff)
    then show "take_bit sz v \<noteq> v" using k(2) by auto
  qed
qed

lemma BitLen_eight: "BitLen 8 = 4"
  by code_simp

lemma stream_of_fifteen_bytes:
  "AppendBits 120 (replicate 15 0xFF) emptyBitStream =
     Some (None, \<lparr>nextBitIndex = 120, backingStore = Some (replicate 15 0xFF @ [0])\<rparr>)"
  by code_simp

lemma reachable_fifteen_bytes:
  "reachable \<lparr>nextBitIndex = 120, backingStore = Some (replicate 15 0xFF @ [0])\<rparr>"
  using reach_empty stream_of_fifteen_bytes by (rule reach_AppendBits)

theorem backing_store_in_bounds_witness:
  "reachable \<lparr>nextBitIndex = 120, backingStore = Some (replicate 15 0xFF @ [0])\<rparr>
   \<and> bytesNeededForBits (Size \<lparr>nextBitIndex = 120, backingStore = Some (replicate 15 0xFF @ [0])\<rparr>)
       < length (replicate 15 (0xFF :: byte) @ [0])
   \<and> bytesNeededForBits 8 \<le> length [0xFF :: byte]
   \<and> (\<exists>s1. AppendBits 8 [0xFF]
               \<lparr>nextBitIndex = 120, backingStore = Some (replicate 15 0xFF @ [0])\<rparr>
             = Some (None, s1))"
proof -
  have h: "bytesNeededForBits 8 \<le> length [0xFF :: byte]"
    by (simp add: bytesNeededForBits_def)
  show ?thesis
    using reachable_fifteen_bytes h backing_store_in_bounds [OF reachable_fifteen_bytes]
    by simp
qed

theorem zero_tail_invariant_witness:
  "reachable \<lparr>nextBitIndex = 3,
               backingStore = Some [0xE0, 0, 0, 0, 0, 0, 0, 0, 0, 0, 0, 0, 0, 0, 0, 0]\<rparr>
   \<and> zero_from [0xE0, 0, 0, 0, 0, 0, 0, 0, 0, 0, 0, 0, 0, 0, 0, 0] 3
   \<and> ToBytes \<lparr>nextBitIndex = 3,
               backingStore = Some [0xE0, 0, 0, 0, 0, 0, 0, 0, 0, 0, 0, 0, 0, 0, 0, 0]\<rparr> = [0xE0]
   \<and> zero_from [0xE0] 3"
proof -
  let ?S = "\<lparr>nextBitIndex = 3,
             backingStore = Some [0xE0, 0, 0, 0, 0, 0, 0, 0, 0, 0, 0, 0, 0, 0, 0, 0 :: byte]\<rparr>"
  have t: "take (bytesNeededForBits (Size ?S)) (slice_bytes (backingStore ?S)) = [0xE0]"
    by (simp add: bytesNeededForBits_def Size_def slice_bytes_def)
  show ?thesis
    using reachable_three_bits zero_tail_invariant [OF reachable_three_bits]
    unfolding t by (auto simp add: Size_def slice_bytes_def)
qed

section \<open>Reading bits and unsigned integers\<close>

lemma bit_push_of_bool:
  "bit (push_bit k (of_bool c :: byte)) j \<longleftrightarrow> c \<and> j = k \<and> k < 8"
  by (auto simp add: bit_simps)

lemma same_div_mod:
  fixes p i :: nat
  assumes "p div 8 = i div 8" "p mod 8 = i mod 8"
  shows "p = i"
proof -
  have "p = 8 * (p div 8) + p mod 8" by (simp only: mult_div_mod_eq)
  also have "\<dots> = 8 * (i div 8) + i mod 8" using assms by (simp only:)
  also have "\<dots> = i" by (simp only: mult_div_mod_eq)
  finally show ?thesis .
qed

lemma BitsAt_loop_step_index:
  fixes i :: nat
  shows "(if 7 - int (i mod 8) - 1 < 0 then i div 8 + 1 else i div 8) = (i + 1) div 8"
    and "(if 7 - int (i mod 8) - 1 < 0 then 7 else 7 - int (i mod 8) - 1) = 7 - int ((i + 1) mod 8)"
proof -
  have "i mod 8 < 8" by simp
  then consider "i mod 8 = 7" | "i mod 8 < 7" by linarith
  then show "(if 7 - int (i mod 8) - 1 < 0 then i div 8 + 1 else i div 8) = (i + 1) div 8"
    by cases (simp_all add: div_Suc mod_Suc)
  from \<open>i mod 8 < 8\<close> consider "i mod 8 = 7" | "i mod 8 < 7" by linarith
  then show "(if 7 - int (i mod 8) - 1 < 0 then 7 else 7 - int (i mod 8) - 1)
               = 7 - int ((i + 1) mod 8)"
    by cases (simp_all add: div_Suc mod_Suc)
qed

lemma BitsAt_loop_ok:
  assumes cov: "nextBitIndex s \<le> 8 * length (slice_bytes (backingStore s))"
    and rng: "index + sz \<le> nextBitIndex s"
    and i: "i \<le> sz"
    and len: "length result = bytesNeededForBits sz"
    and bi: "(if shift < 0 then byteIndex + 1 else byteIndex) = i div 8"
    and sh: "(if shift < 0 then 7 else shift) = 7 - int (i mod 8)"
    and inv: "\<And>p. p < 8 * length result \<Longrightarrow>
               bit_in result p = (p < i \<and> bit_in (slice_bytes (backingStore s)) (index + p))"
  shows "\<exists>data. BitsAt_loop s index sz i byteIndex shift result = Inr data
           \<and> length data = bytesNeededForBits sz
           \<and> (\<forall>p<8 * length data.
                 bit_in data p = (p < sz \<and> bit_in (slice_bytes (backingStore s)) (index + p)))"
  using i len bi sh inv
proof (induction "sz - i" arbitrary: i byteIndex shift result)
  case 0
  then have "i = sz" by simp
  then show ?case using "0.prems" by (subst BitsAt_loop.simps) simp
next
  case (Suc d)
  then have lt: "i < sz" by simp
  define st where "st = slice_bytes (backingStore s)"
  define k where "k = i div 8"
  define b where "b = msb_bit st (index + i)"
  define result1 where "result1 = result[k := result ! k OR push_bit (nat (7 - int (i mod 8))) b]"
  have kl: "k < length result"
    using lt Suc.prems(2) unfolding k_def bytesNeeded_alt by arith
  have ba: "BitAt s (index + i) = Inr b"
    unfolding b_def st_def using lt rng cov by (intro BitAt_msb_bit) simp_all
  have step: "BitsAt_loop s index sz i byteIndex shift result =
              BitsAt_loop s index sz (i + 1) k (7 - int (i mod 8) - 1) result1"
    using lt ba kl Suc.prems(3,4)
    by (subst BitsAt_loop.simps) (simp add: Let_def k_def result1_def)
  have "\<exists>data. BitsAt_loop s index sz (i + 1) k (7 - int (i mod 8) - 1) result1 = Inr data
           \<and> length data = bytesNeededForBits sz
           \<and> (\<forall>p<8 * length data.
                 bit_in data p = (p < sz \<and> bit_in (slice_bytes (backingStore s)) (index + p)))"
  proof (rule Suc.hyps(1))
    show "d = sz - (i + 1)" using Suc.hyps(2) by simp
    show "i + 1 \<le> sz" using lt by simp
    show "length result1 = bytesNeededForBits sz" using Suc.prems(2) by (simp add: result1_def)
    show "(if 7 - int (i mod 8) - 1 < 0 then k + 1 else k) = (i + 1) div 8"
      unfolding k_def by (rule BitsAt_loop_step_index)
    show "(if 7 - int (i mod 8) - 1 < 0 then 7 else 7 - int (i mod 8) - 1)
            = 7 - int ((i + 1) mod 8)"
      by (rule BitsAt_loop_step_index)
  next
    fix p assume p: "p < 8 * length result1"
    then have p': "p < 8 * length result" by (simp add: result1_def)
    have sh7: "nat (7 - int (i mod 8)) = 7 - i mod 8" by simp
    have "bit_in result1 p = (bit_in result p \<or>
            (p div 8 = k \<and> bit (push_bit (7 - i mod 8) b) (7 - p mod 8)))"
      unfolding result1_def sh7 using kl p' by (rule bit_in_or_update)
    moreover have "bit (push_bit (7 - i mod 8) b) (7 - p mod 8)
        \<longleftrightarrow> bit_in st (index + i) \<and> p mod 8 = i mod 8"
      unfolding b_def msb_bit_of_bool bit_push_of_bool by auto
    moreover have "p div 8 = k \<and> p mod 8 = i mod 8 \<longleftrightarrow> p = i"
      unfolding k_def using same_div_mod [of p i] by blast
    moreover have "bit_in result p = (p < i \<and> bit_in st (index + p))"
      unfolding st_def using p' by (rule Suc.prems(5))
    ultimately show "bit_in result1 p =
        (p < i + 1 \<and> bit_in (slice_bytes (backingStore s)) (index + p))"
      unfolding st_def [symmetric] by (cases "p = i") auto
  qed
  then show ?case unfolding step .
qed

lemma BitsAt_ok:
  assumes cov: "nextBitIndex s \<le> 8 * length (slice_bytes (backingStore s))"
    and rng: "index + sz \<le> nextBitIndex s"
    and lim: "bytesNeededForBits sz \<le> maxAlloc"
  shows "\<exists>data. BitsAt s index sz = Inr data
           \<and> length data = bytesNeededForBits sz
           \<and> (\<forall>p<8 * length data.
                 bit_in data p = (p < sz \<and> bit_in (slice_bytes (backingStore s)) (index + p)))"
proof -
  have z: "\<not> bit_in (replicate (bytesNeededForBits sz) 0) p"
    if "p < 8 * length (replicate (bytesNeededForBits sz) (0 :: byte))" for p
  proof -
    have "p div 8 < bytesNeededForBits sz" using that by simp
    then show ?thesis by (simp add: bit_in_def)
  qed
  have "\<exists>data. BitsAt_loop s index sz 0 0 7 (replicate (bytesNeededForBits sz) 0) = Inr data
           \<and> length data = bytesNeededForBits sz
           \<and> (\<forall>p<8 * length data.
                 bit_in data p = (p < sz \<and> bit_in (slice_bytes (backingStore s)) (index + p)))"
    using cov rng by (rule BitsAt_loop_ok) (simp_all add: z)
  moreover have "\<not> nextBitIndex s < uint_add index sz"
    using rng uint_add_le [of index sz] by simp
  ultimately show ?thesis by (simp add: BitsAt_def make_bytes_ok [OF lim])
qed


lemma len8: "LENGTH(8) = 8" "LENGTH(64) = 64"
  by simp_all

lemma bit_in_PutUint64:
  assumes "p < 64"
  shows "bit_in (PutUint64 v) p = bit v (63 - p)"
proof -
  have d: "p div 8 < 8" using assms by simp
  have "p mod 8 < 8" "p div 8 \<le> 7" using assms by simp_all
  then have "56 - 8 * (p div 8) + (7 - p mod 8) = 63 - p"
    using mult_div_mod_eq [of 8 p] by linarith
  then have e: "bit v (56 - 8 * (p div 8) + (7 - p mod 8)) = bit v (63 - p)" by (rule arg_cong)
  have "bit_in (PutUint64 v) p = bit (ucast (drop_bit (56 - 8 * (p div 8)) v) :: byte) (7 - p mod 8)"
    using d by (simp add: bit_in_def PutUint64_def)
  also have "\<dots> = bit v (56 - 8 * (p div 8) + (7 - p mod 8))"
  proof -
    have "7 - p mod 8 < 8" by arith
    then show ?thesis by (simp only: bit_word_ucast_iff bit_drop_bit_eq o_def len8) simp
  qed
  finally show ?thesis using e by simp
qed

lemma length_PutUint64: "length (PutUint64 v) = 8"
  by (simp add: PutUint64_def)

lemma bit_be_fold:
  "bit (foldl (\<lambda>acc x. push_bit 8 acc OR ucast x) (0 :: uint64) bs) k
     \<longleftrightarrow> k < 64 \<and> k < 8 * length bs \<and> bit_in bs (8 * length bs - 1 - k)"
proof (induction bs arbitrary: k rule: rev_induct)
  case Nil
  show ?case by simp
next
  case (snoc x xs)
  show ?case
  proof (cases "k < 8")
    case True
    define m where "m = 7 - k"
    have m: "m < 8" "7 - m = k" using True by (simp_all add: m_def)
    have "8 * length (xs @ [x]) - 1 - k = 8 * length xs + m" using True by (simp add: m_def)
    then have "(8 * length (xs @ [x]) - 1 - k) div 8 = length xs"
      "7 - (8 * length (xs @ [x]) - 1 - k) mod 8 = k"
      using m by simp_all
    then have "bit_in (xs @ [x]) (8 * length (xs @ [x]) - 1 - k) = bit x k"
      by (simp add: bit_in_def)
    then show ?thesis using True by (simp add: bit_simps)
  next
    case False
    then have k8: "8 \<le> k" by simp
    show ?thesis
    proof (cases "k < 8 * length (xs @ [x])")
      case True
      then have lt: "k - 8 < 8 * length xs" using k8 by simp
      have idx: "8 * length (xs @ [x]) - 1 - k = 8 * length xs - 1 - (k - 8)"
        using k8 True by simp
      have "8 * length xs - 1 - (k - 8) < 8 * length xs" using lt by arith
      then have "(8 * length xs - 1 - (k - 8)) div 8 < length xs" by simp
      then have "bit_in (xs @ [x]) (8 * length xs - 1 - (k - 8))
                 = bit_in xs (8 * length xs - 1 - (k - 8))"
        by (simp add: bit_in_def nth_append)
      then show ?thesis
        using k8 True lt snoc.IH [of "k - 8"] unfolding idx
        by (auto simp add: bit_simps dest: bit_imp_le_length)
    next
      case F: False
      then have "\<not> k - 8 < 8 * length xs" using k8 by simp
      moreover have "\<not> bit x k" using k8 bit_imp_le_length [of x k] by auto
      ultimately show ?thesis using k8 F snoc.IH [of "k - 8"] by (simp add: bit_simps)
    qed
  qed
qed

lemma Uint64_ok:
  assumes "length b = 8"
  shows "\<exists>w. Uint64 b = Inr w \<and> (\<forall>k. bit w k \<longleftrightarrow> k < 64 \<and> bit_in b (63 - k))"
proof -
  have "bit (foldl (\<lambda>acc x. push_bit 8 acc OR ucast x) (0 :: uint64) b) k
          \<longleftrightarrow> k < 64 \<and> bit_in b (63 - k)" for k
    unfolding bit_be_fold using assms by auto
  then show ?thesis using assms by (simp add: Uint64_def)
qed


lemma bytesNeeded_64: "sz \<le> 64 \<Longrightarrow> bytesNeededForBits sz \<le> 8"
  unfolding bytesNeeded_alt by arith

lemma AppendUint_spec:
  assumes ok: "appendable s" and sz: "sz \<le> 64" and fit: "take_bit sz v = v"
  shows "\<exists>s1. AppendUint v sz s = Some (None, s1) \<and> wellformed s1
           \<and> nextBitIndex s1 = nextBitIndex s + sz
           \<and> (\<forall>p<nextBitIndex s. bit_in (slice_bytes (backingStore s1)) p
                                  = bit_in (slice_bytes (backingStore s)) p)
           \<and> (\<forall>j. j < sz \<longrightarrow>
                  bit_in (slice_bytes (backingStore s1)) (nextBitIndex s + j) = bit v (sz - 1 - j))"
proof -
  define bits where "bits = PutUint64 (push_bit (64 - sz) v)"
  have "\<not> (\<exists>k\<ge>sz. bit v k)"
  proof
    assume "\<exists>k\<ge>sz. bit v k"
    then obtain k where k: "sz \<le> k" "bit v k" by blast
    then have "\<not> bit (take_bit sz v) k" by (simp add: bit_take_bit_iff)
    then show False using k(2) fit by simp
  qed
  then have chk: "\<not> v AND (push_bit sz 1 - 1) \<noteq> v" unfolding AppendUint_value_check .
  have run: "AppendUint v sz s = AppendBits sz bits s"
    using sz chk unfolding AppendUint_def Let_def bits_def by simp
  have len: "bytesNeededForBits sz \<le> length bits"
    using bytesNeeded_64 [OF sz] by (simp add: bits_def length_PutUint64)
  have src: "bit_in bits j = bit v (sz - 1 - j)" if "j < sz" for j
  proof -
    have j: "j < 64" using that sz by simp
    have "64 - sz \<le> 63 - j" "63 - j < 64" "63 - j - (64 - sz) = sz - 1 - j"
      using that sz by arith+
    then have "bit (push_bit (64 - sz) v) (63 - j) = bit v (sz - 1 - j)"
      by (simp add: bit_push_bit_iff)
    then show ?thesis unfolding bits_def bit_in_PutUint64 [OF j] .
  qed
  show ?thesis
    using AppendBits_spec [OF ok len] src unfolding run by auto
qed

lemma UintAt_ok:
  assumes cov: "nextBitIndex s \<le> 8 * length (slice_bytes (backingStore s))"
    and sz: "sz \<le> 64" and rng: "index + sz \<le> nextBitIndex s"
  shows "\<exists>w. UintAt s index sz = Inr w
           \<and> (\<forall>k. bit w k \<longleftrightarrow> k < sz \<and> bit_in (slice_bytes (backingStore s)) (index + (sz - 1 - k)))"
proof -
  define st where "st = slice_bytes (backingStore s)"
  have lim: "bytesNeededForBits sz \<le> maxAlloc"
    using bytesNeeded_64 [OF sz] by (simp add: maxAlloc_def)
  obtain data where d: "BitsAt s index sz = Inr data"
    and ld: "length data = bytesNeededForBits sz"
    and bd: "\<And>p. p < 8 * length data \<Longrightarrow> bit_in data p = (p < sz \<and> bit_in st (index + p))"
    using BitsAt_ok [OF cov rng lim] unfolding st_def by blast
  define buf where "buf = copy_bytes (replicate 8 0) data"
  have lb: "length buf = 8" by (simp add: buf_def length_copy_bytes)
  have szl: "sz \<le> 8 * length data" unfolding ld bytesNeeded_alt by arith
  have bb: "bit_in buf p = (p < sz \<and> bit_in st (index + p))" if "p < 64" for p
  proof -
    have "bit_in buf p = (p < 8 * length data \<and> bit_in data p)"
      unfolding buf_def using that by (intro bit_in_copy_bytes) simp
    then show ?thesis using bd [of p] szl by auto
  qed
  obtain W where W: "Uint64 buf = Inr W" and bW: "\<And>k. bit W k \<longleftrightarrow> k < 64 \<and> bit_in buf (63 - k)"
    using Uint64_ok [OF lb] by blast
  have "bit (drop_bit (64 - sz) W) k \<longleftrightarrow> k < sz \<and> bit_in st (index + (sz - 1 - k))" for k
  proof (cases "k < sz")
    case True
    then have a: "64 - sz + k < 64" "63 - (64 - sz + k) = sz - 1 - k" "sz - 1 - k < sz"
      "63 - (64 - sz + k) < 64"
      using sz by arith+
    have "bit (drop_bit (64 - sz) W) k = bit W (64 - sz + k)" by (simp add: bit_drop_bit_eq)
    also have "\<dots> = bit_in buf (63 - (64 - sz + k))" using bW a(1) by simp
    also have "\<dots> = bit_in st (index + (sz - 1 - k))"
      using bb [OF a(4)] a(2,3) by simp
    finally show ?thesis using True by simp
  next
    case False
    then have "\<not> 64 - sz + k < 64" using sz by arith
    then have "\<not> bit W (64 - sz + k)" using bW by simp
    then show ?thesis using False by (simp add: bit_drop_bit_eq)
  qed
  then show ?thesis
    using sz d W unfolding UintAt_def Let_def buf_def st_def by simp
qed

lemma fits_take_bit:
  fixes v :: uint64
  assumes "unat v < 2 ^ sz"
  shows "take_bit sz v = v"
proof -
  have "unat (take_bit sz v) = take_bit sz (unat v)" by (simp add: unsigned_take_bit_eq)
  also have "\<dots> = unat v" using assms by (simp add: take_bit_nat_eq_self)
  finally show ?thesis by (simp add: word_unat_eq_iff)
qed

text \<open>
  Claim C2. For every size \<open>sz \<le> 64\<close>, every value \<open>v < 2 ^ sz\<close> and every reachable
  stream, \<open>AppendUint(v, sz)\<close> returns normally and \<open>UintAt(i, sz)\<close> at the old length \<open>i\<close>
  then returns exactly \<open>v\<close>.
\<close>

theorem AppendUint_UintAt_roundtrip:
  assumes "reachable st" and "sz \<le> 64" and "unat v < 2 ^ sz"
  shows "\<exists>st1. AppendUint v sz st = Some (None, st1)
            \<and> Size st1 = Size st + sz
            \<and> UintAt st1 (Size st) sz = Inr v"
proof -
  have wf: "wellformed st" using assms(1) by (rule reachable_wellformed)
  have fit: "take_bit sz v = v" using assms(3) by (rule fits_take_bit)
  obtain st1 where run: "AppendUint v sz st = Some (None, st1)" and w1: "wellformed st1"
    and n1: "nextBitIndex st1 = nextBitIndex st + sz"
    and new: "\<And>j. j < sz \<Longrightarrow>
           bit_in (slice_bytes (backingStore st1)) (nextBitIndex st + j) = bit v (sz - 1 - j)"
    using AppendUint_spec [OF wellformed_appendable [OF wf] assms(2) fit] by blast
  obtain w where rd: "UintAt st1 (nextBitIndex st) sz = Inr w"
    and bw: "\<And>k. bit w k \<longleftrightarrow>
          k < sz \<and> bit_in (slice_bytes (backingStore st1)) (nextBitIndex st + (sz - 1 - k))"
    using UintAt_ok [OF wellformed_covers [OF w1] assms(2), of "nextBitIndex st"] n1 by auto
  have "w = v"
  proof (rule bit_word_eqI)
    fix k
    show "bit w k = bit v k"
    proof (cases "k < sz")
      case True
      then have "sz - 1 - k < sz" "sz - 1 - (sz - 1 - k) = k" by arith+
      then show ?thesis using bw [of k] new [of "sz - 1 - k"] True by simp
    next
      case False
      then have "\<not> bit (take_bit sz v) k" by (simp add: bit_take_bit_iff)
      then show ?thesis using bw [of k] False fit by simp
    qed
  qed
  then show ?thesis using run rd n1 by (simp add: Size_def)
qed

theorem AppendUint_UintAt_roundtrip_witness:
  "reachable \<lparr>nextBitIndex = 3,
               backingStore = Some [0xE0, 0, 0, 0, 0, 0, 0, 0, 0, 0, 0, 0, 0, 0, 0, 0]\<rparr>
   \<and> (7 :: nat) \<le> 64 \<and> unat (0x55 :: uint64) < 2 ^ 7
   \<and> (\<exists>st1. AppendUint 0x55 7
                \<lparr>nextBitIndex = 3,
                 backingStore = Some [0xE0, 0, 0, 0, 0, 0, 0, 0, 0, 0, 0, 0, 0, 0, 0, 0]\<rparr>
              = Some (None, st1)
            \<and> Size st1 = 10 \<and> UintAt st1 3 7 = Inr 0x55)"
proof -
  have h: "(7 :: nat) \<le> 64" "unat (0x55 :: uint64) < 2 ^ 7" by simp_all
  show ?thesis
    using reachable_three_bits h AppendUint_UintAt_roundtrip [OF reachable_three_bits h]
    by (simp add: Size_def)
qed

section \<open>Base32\<close>

lemma fold_upd_hit:
  assumes "distinct xs" "n \<le> length xs" "i < n"
  shows "fold (\<lambda>i m. m(xs ! i \<mapsto> f i)) [0..<n] m0 (xs ! i) = Some (f i)"
  using assms(2,3)
proof (induction n)
  case 0
  then show ?case by simp
next
  case (Suc n)
  show ?case
  proof (cases "i = n")
    case True
    then show ?thesis by simp
  next
    case False
    then have "i < n" using Suc.prems by simp
    moreover have "xs ! i \<noteq> xs ! n"
      using assms(1) Suc.prems False by (simp add: nth_eq_iff_index_eq)
    ultimately show ?thesis using Suc by simp
  qed
qed

lemma fold_upd_miss:
  assumes "n \<le> length xs" "c \<notin> set (take n xs)"
  shows "fold (\<lambda>i m. m(xs ! i \<mapsto> f i)) [0..<n] m0 c = m0 c"
  using assms
proof (induction n)
  case 0
  then show ?case by simp
next
  case (Suc n)
  then have "c \<noteq> xs ! n" "c \<notin> set (take n xs)"
    by (auto simp add: take_Suc_conv_app_nth)
  then show ?case using Suc by simp
qed

lemma distinct_base32Alphabet: "distinct base32Alphabet"
  by (simp add: base32Alphabet_def)

lemma length_base32Alphabet: "length base32Alphabet = 32"
  by (simp add: base32Alphabet_def)

lemma base32Reversed_nth:
  "i < 32 \<Longrightarrow> base32Reversed (base32Alphabet ! i) = Some (of_nat i)"
  unfolding base32Reversed_def
  using distinct_base32Alphabet by (rule fold_upd_hit) (simp_all add: length_base32Alphabet)

lemma base32Reversed_None:
  "c \<notin> set base32Alphabet \<Longrightarrow> base32Reversed c = None"
  unfolding base32Reversed_def
  by (subst fold_upd_miss) simp_all

lemma base32Reversed_Some:
  assumes "base32Reversed c = Some v"
  shows "\<exists>i<32. c = base32Alphabet ! i \<and> v = of_nat i"
proof -
  have "c \<in> set base32Alphabet" using assms base32Reversed_None by force
  then obtain i where i: "i < 32" "base32Alphabet ! i = c"
    by (auto simp add: in_set_conv_nth length_base32Alphabet)
  then show ?thesis using assms base32Reversed_nth [of i] by auto
qed


lemma decoded_bit_Cons:
  "decoded_bit (c # cs) q =
     (if q < 5 then bit (the (base32Reversed c)) (4 - q) else decoded_bit cs (q - 5))"
proof (cases "q < 5")
  case True
  then show ?thesis by (simp add: decoded_bit_def)
next
  case False
  then have "q div 5 = Suc ((q - 5) div 5)" "q mod 5 = (q - 5) mod 5"
    by (simp_all add: le_div_geq le_mod_geq)
  then show ?thesis using False by (simp add: decoded_bit_def)
qed

lemma bit_of_nat_small:
  fixes j :: nat
  assumes "j < 2 ^ m"
  shows "bit j k \<longleftrightarrow> k < m \<and> bit j k"
proof -
  have "take_bit m j = j" using assms by (simp add: take_bit_nat_eq_self)
  then have "bit j k = bit (take_bit m j) k" by simp
  then show ?thesis by (simp add: bit_take_bit_iff)
qed

lemma take_bit_ucast_small:
  assumes "i < 32"
  shows "take_bit 5 (ucast (of_nat i :: byte) :: uint64) = ucast (of_nat i :: byte)"
proof (rule bit_word_eqI)
  fix k
  have "bit i k \<longleftrightarrow> k < 5 \<and> bit i k" using assms bit_of_nat_small [of i 5 k] by simp
  then show "bit (take_bit 5 (ucast (of_nat i :: byte) :: uint64)) k
        = bit (ucast (of_nat i :: byte) :: uint64) k"
    by (auto simp add: bit_simps)
qed

lemma UnmarshalBase32_loop_valid:
  assumes "wellformed s" "\<forall>c\<in>set cs. c \<in> set base32Alphabet"
  shows "\<exists>s1. UnmarshalBase32_loop cs s = Some (Inr None, s1) \<and> wellformed s1
           \<and> nextBitIndex s1 = nextBitIndex s + 5 * length cs
           \<and> (\<forall>p<nextBitIndex s. bit_in (slice_bytes (backingStore s1)) p
                                  = bit_in (slice_bytes (backingStore s)) p)
           \<and> (\<forall>q<5 * length cs.
                 bit_in (slice_bytes (backingStore s1)) (nextBitIndex s + q) = decoded_bit cs q)"
  using assms
proof (induction cs arbitrary: s)
  case Nil
  then show ?case by simp
next
  case (Cons c cs)
  then have "c \<in> set base32Alphabet" by simp
  then obtain i where i: "i < 32" "base32Alphabet ! i = c"
    by (auto simp add: in_set_conv_nth length_base32Alphabet)
  define v where "v = (of_nat i :: byte)"
  have rv: "base32Reversed c = Some v"
    using base32Reversed_nth [OF i(1)] i(2) by (simp add: v_def)
  have fit: "take_bit 5 (ucast v :: uint64) = ucast v"
    unfolding v_def using i(1) by (rule take_bit_ucast_small)
  obtain s1 where a: "AppendUint (ucast v) 5 s = Some (None, s1)" and w1: "wellformed s1"
    and n1: "nextBitIndex s1 = nextBitIndex s + 5"
    and old1: "\<And>p. p < nextBitIndex s \<Longrightarrow>
          bit_in (slice_bytes (backingStore s1)) p = bit_in (slice_bytes (backingStore s)) p"
    and new1: "\<And>j. j < 5 \<Longrightarrow>
          bit_in (slice_bytes (backingStore s1)) (nextBitIndex s + j)
            = bit (ucast v :: uint64) (5 - 1 - j)"
    using AppendUint_spec [OF wellformed_appendable [OF Cons.prems(1)] _ fit] by auto
  have "\<forall>c\<in>set cs. c \<in> set base32Alphabet" using Cons.prems(2) by simp
  from Cons.IH [OF w1 this]
  obtain s2 where l: "UnmarshalBase32_loop cs s1 = Some (Inr None, s2)" and w2: "wellformed s2"
    and n2: "nextBitIndex s2 = nextBitIndex s1 + 5 * length cs"
    and old2: "\<And>p. p < nextBitIndex s1 \<Longrightarrow>
          bit_in (slice_bytes (backingStore s2)) p = bit_in (slice_bytes (backingStore s1)) p"
    and new2: "\<And>q. q < 5 * length cs \<Longrightarrow>
          bit_in (slice_bytes (backingStore s2)) (nextBitIndex s1 + q) = decoded_bit cs q"
    by blast
  have run: "UnmarshalBase32_loop (c # cs) s = Some (Inr None, s2)"
    using rv a l by simp
  have "bit_in (slice_bytes (backingStore s2)) p = bit_in (slice_bytes (backingStore s)) p"
    if "p < nextBitIndex s" for p
    using that old1 [of p] old2 [of p] n1 by simp
  moreover have "bit_in (slice_bytes (backingStore s2)) (nextBitIndex s + q)
      = decoded_bit (c # cs) q" if "q < 5 * length (c # cs)" for q
  proof (cases "q < 5")
    case True
    have "4 - q < 64" by arith
    then have "bit (ucast v :: uint64) (5 - 1 - q) = bit v (4 - q)"
      by (auto simp add: bit_simps dest: bit_imp_le_length)
    then show ?thesis
      using True old2 [of "nextBitIndex s + q"] new1 [of q] n1 rv
      by (simp add: decoded_bit_Cons)
  next
    case False
    then have "q - 5 < 5 * length cs" "nextBitIndex s + q = nextBitIndex s1 + (q - 5)"
      using that n1 by simp_all
    then show ?thesis using new2 [of "q - 5"] False by (simp add: decoded_bit_Cons)
  qed
  ultimately show ?case using run w2 n1 n2 by auto
qed

lemma UnmarshalBase32_loop_append:
  "UnmarshalBase32_loop pre s = Some (Inr None, s1) \<Longrightarrow>
   UnmarshalBase32_loop (pre @ rest) s = UnmarshalBase32_loop rest s1"
proof (induction pre arbitrary: s)
  case Nil
  then show ?case by simp
next
  case (Cons c cs)
  then show ?case
    by (auto split: option.splits prod.splits)
qed


lemma decoded_bit_group:
  assumes "j < 5" "k < 32" "cs ! i = base32Alphabet ! k"
  shows "decoded_bit cs (5 * i + j) = bit k (4 - j)"
proof -
  have "(5 * i + j) div 5 = i" "(5 * i + j) mod 5 = j" using assms(1) by simp_all
  moreover have "4 - j < 8" by arith
  ultimately show ?thesis
    using base32Reversed_nth [OF assms(2)] assms(3)
    by (simp add: decoded_bit_def bit_of_nat_iff)
qed

lemma UintAt_decoded:
  assumes wf: "wellformed s" and rng: "5 * i + 5 \<le> nextBitIndex s"
    and bits: "\<And>j. j < 5 \<Longrightarrow>
        bit_in (slice_bytes (backingStore s)) (5 * i + j) = decoded_bit cs (5 * i + j)"
    and k: "k < 32" "cs ! i = base32Alphabet ! k"
  shows "UintAt s (5 * i) 5 = Inr (of_nat k)"
proof -
  obtain w where rd: "UintAt s (5 * i) 5 = Inr w"
    and bw: "\<And>m. bit w m \<longleftrightarrow>
          m < 5 \<and> bit_in (slice_bytes (backingStore s)) (5 * i + (5 - 1 - m))"
    using UintAt_ok [OF wellformed_covers [OF wf] _ rng] by auto
  have "w = of_nat k"
  proof (rule bit_word_eqI)
    fix m assume "m < LENGTH(64)"
    then have m64: "m < 64" by simp
    show "bit w m = bit (of_nat k :: uint64) m"
    proof (cases "m < 5")
      case True
      then have a: "5 - 1 - m < 5" "4 - (5 - 1 - m) = m" by arith+
      have "bit w m = decoded_bit cs (5 * i + (5 - 1 - m))"
        using bw [of m] bits [OF a(1)] True by simp
      also have "\<dots> = bit k m"
        using decoded_bit_group [OF a(1) k] a(2) by simp
      finally show ?thesis using m64 by (simp add: bit_of_nat_iff)
    next
      case False
      have "\<not> bit k m" using bit_of_nat_small [of k 5 m] k(1) False by simp
      then show ?thesis using bw [of m] False by (simp add: bit_of_nat_iff)
    qed
  qed
  then show ?thesis using rd by simp
qed

lemma decoded_values:
  assumes wf: "wellformed s" and n: "nextBitIndex s = 5 * length cs"
    and bits: "\<And>q. q < 5 * length cs \<Longrightarrow>
        bit_in (slice_bytes (backingStore s)) q = decoded_bit cs q"
    and valid: "\<forall>c\<in>set cs. c \<in> set base32Alphabet"
    and i: "i < length cs"
  shows "\<exists>k<32. cs ! i = base32Alphabet ! k \<and> UintAt s (5 * i) 5 = Inr (of_nat k)"
proof -
  have "cs ! i \<in> set base32Alphabet" using valid i by simp
  then obtain k where k: "k < 32" "cs ! i = base32Alphabet ! k"
    by (auto simp add: in_set_conv_nth length_base32Alphabet)
  have rng: "5 * i + 5 \<le> nextBitIndex s" using i n by simp
  have "bit_in (slice_bytes (backingStore s)) (5 * i + j) = decoded_bit cs (5 * i + j)"
    if "j < 5" for j
    using that i by (intro bits) simp
  then have "UintAt s (5 * i) 5 = Inr (of_nat k)"
    using wf rng k by (intro UintAt_decoded) simp_all
  then show ?thesis using k by blast
qed

lemma UnmarshalBase32_valid:
  assumes "\<forall>c\<in>set cs. c \<in> set base32Alphabet"
  shows "\<exists>s1. UnmarshalBase32 cs s = Some (Inr None, s1) \<and> wellformed s1
           \<and> nextBitIndex s1 = 5 * length cs
           \<and> (\<forall>q<5 * length cs. bit_in (slice_bytes (backingStore s1)) q = decoded_bit cs q)"
proof -
  have "wellformed (s\<lparr>backingStore := None, nextBitIndex := 0\<rparr>)"
    by (simp add: wellformed_def)
  from UnmarshalBase32_loop_valid [OF this assms]
  show ?thesis unfolding UnmarshalBase32_def by auto
qed

text \<open>
  Claim C9. Whatever the receiver holds, \<open>UnmarshalBase32(encoded)\<close> starts from the
  empty stream. When every character is in the alphabet it returns no error and leaves
  \<open>5 * len(encoded)\<close> bits, group \<open>i\<close> of five bits being the index of character \<open>i\<close> in
  the alphabet. When the first character outside the alphabet is at position \<open>n\<close> it
  returns the error for that character and leaves the \<open>5 * n\<close> bits decoded from the
  \<open>n\<close> characters before it.
\<close>

theorem UnmarshalBase32_decodes:
  "(set encoded \<subseteq> set base32Alphabet \<longrightarrow>
      (\<exists>s1. UnmarshalBase32 encoded s = Some (Inr None, s1)
          \<and> Size s1 = 5 * length encoded
          \<and> (\<forall>i<length encoded. \<exists>k<32. encoded ! i = base32Alphabet ! k
                                     \<and> UintAt s1 (5 * i) 5 = Inr (of_nat k))))
   \<and> (n < length encoded \<and> encoded ! n \<notin> set base32Alphabet
        \<and> set (take n encoded) \<subseteq> set base32Alphabet \<longrightarrow>
      (\<exists>s1. UnmarshalBase32 encoded s = Some (Inr (Some (InvalidBase32Character (encoded ! n))), s1)
          \<and> Size s1 = 5 * n
          \<and> (\<forall>i<n. \<exists>k<32. encoded ! i = base32Alphabet ! k
                           \<and> UintAt s1 (5 * i) 5 = Inr (of_nat k))))"
proof (intro conjI impI)
  assume "set encoded \<subseteq> set base32Alphabet"
  then have valid: "\<forall>c\<in>set encoded. c \<in> set base32Alphabet" by blast
  then obtain s1 where run: "UnmarshalBase32 encoded s = Some (Inr None, s1)" and wf: "wellformed s1"
    and n1: "nextBitIndex s1 = 5 * length encoded"
    and bits: "\<And>q. q < 5 * length encoded \<Longrightarrow>
          bit_in (slice_bytes (backingStore s1)) q = decoded_bit encoded q"
    using UnmarshalBase32_valid [of encoded s] by blast
  have "\<exists>k<32. encoded ! i = base32Alphabet ! k \<and> UintAt s1 (5 * i) 5 = Inr (of_nat k)"
    if "i < length encoded" for i
    using wf n1 bits valid that by (rule decoded_values)
  then show "\<exists>s1. UnmarshalBase32 encoded s = Some (Inr None, s1)
          \<and> Size s1 = 5 * length encoded
          \<and> (\<forall>i<length encoded. \<exists>k<32. encoded ! i = base32Alphabet ! k
                                     \<and> UintAt s1 (5 * i) 5 = Inr (of_nat k))"
    using run n1 by (auto simp add: Size_def)
next
  assume a: "n < length encoded \<and> encoded ! n \<notin> set base32Alphabet
        \<and> set (take n encoded) \<subseteq> set base32Alphabet"
  define pre where "pre = take n encoded"
  have split: "encoded = pre @ encoded ! n # drop (Suc n) encoded"
    unfolding pre_def using a by (simp add: id_take_nth_drop)
  have lp: "length pre = n" using a by (simp add: pre_def)
  have valid: "\<forall>c\<in>set pre. c \<in> set base32Alphabet" using a unfolding pre_def by blast
  then obtain s1 where run: "UnmarshalBase32 pre s = Some (Inr None, s1)" and wf: "wellformed s1"
    and n1: "nextBitIndex s1 = 5 * length pre"
    and bits: "\<And>q. q < 5 * length pre \<Longrightarrow>
          bit_in (slice_bytes (backingStore s1)) q = decoded_bit pre q"
    using UnmarshalBase32_valid [of pre s] by blast
  have "UnmarshalBase32 (pre @ encoded ! n # drop (Suc n) encoded) s
        = UnmarshalBase32_loop (encoded ! n # drop (Suc n) encoded) s1"
    using run unfolding UnmarshalBase32_def by (rule UnmarshalBase32_loop_append)
  also have "\<dots> = Some (Inr (Some (InvalidBase32Character (encoded ! n))), s1)"
    using a by (simp add: base32Reversed_None)
  finally have run2: "UnmarshalBase32 encoded s
        = Some (Inr (Some (InvalidBase32Character (encoded ! n))), s1)"
    using split by simp
  have "\<exists>k<32. encoded ! i = base32Alphabet ! k \<and> UintAt s1 (5 * i) 5 = Inr (of_nat k)"
    if "i < n" for i
  proof -
    have "i < length pre" using that lp by simp
    from decoded_values [OF wf n1 bits valid this]
    show ?thesis using that by (simp add: pre_def)
  qed
  then show "\<exists>s1. UnmarshalBase32 encoded s
          = Some (Inr (Some (InvalidBase32Character (encoded ! n))), s1)
          \<and> Size s1 = 5 * n
          \<and> (\<forall>i<n. \<exists>k<32. encoded ! i = base32Alphabet ! k
                           \<and> UintAt s1 (5 * i) 5 = Inr (of_nat k))"
    using run2 n1 lp by (auto simp add: Size_def)
qed


lemma UintAt_group:
  assumes wf: "wellformed s" and rng: "5 * g + 5 \<le> nextBitIndex s"
  shows "\<exists>w. UintAt s (5 * g) 5 = Inr w \<and> unat w < 32
          \<and> (\<forall>m<5. bit w m = bit_in (slice_bytes (backingStore s)) (5 * g + (4 - m)))"
proof -
  obtain w where rd: "UintAt s (5 * g) 5 = Inr w"
    and bw: "\<And>m. bit w m \<longleftrightarrow>
          m < 5 \<and> bit_in (slice_bytes (backingStore s)) (5 * g + (5 - 1 - m))"
    using UintAt_ok [OF wellformed_covers [OF wf] _ rng] by auto
  have "take_bit 5 w = w"
    by (rule bit_word_eqI) (auto simp add: bit_take_bit_iff bw)
  then have "unat w = take_bit 5 (unat w)" by (metis unsigned_take_bit_eq)
  then have "unat w < 2 ^ 5" by (metis take_bit_nat_less_exp)
  then show ?thesis using rd bw by auto
qed

lemma MarshalBase32_loop_ok:
  assumes wf: "wellformed s" and n: "nextBitIndex s = 5 * m" and g: "g0 \<le> m"
  shows "MarshalBase32_loop s (5 * g0) acc
           = Inr (acc @ map (\<lambda>g. base32Alphabet ! group_value s g) [g0..<m])"
  using g
proof (induction "m - g0" arbitrary: g0 acc)
  case 0
  then have "g0 = m" by simp
  then show ?case using n by (subst MarshalBase32_loop.simps) simp
next
  case (Suc d)
  then have lt: "g0 < m" by simp
  then have rng: "5 * g0 + 5 \<le> nextBitIndex s" using n by simp
  obtain w where rd: "UintAt s (5 * g0) 5 = Inr w" and small: "unat w < 32"
    using UintAt_group [OF wf rng] by blast
  have gv: "group_value s g0 = unat w" using rd by (simp add: group_value_def)
  have "MarshalBase32_loop s (5 * g0) acc
          = MarshalBase32_loop s (5 * (g0 + 1)) (acc @ [base32Alphabet ! unat w])"
    using lt n rd small
    by (subst MarshalBase32_loop.simps) (simp add: length_base32Alphabet add.commute)
  also have "\<dots> = Inr ((acc @ [base32Alphabet ! unat w])
                        @ map (\<lambda>g. base32Alphabet ! group_value s g) [g0 + 1..<m])"
    using Suc.hyps(2) lt by (intro Suc.hyps(1)) simp_all
  also have "\<dots> = Inr (acc @ map (\<lambda>g. base32Alphabet ! group_value s g) [g0..<m])"
    using lt gv by (simp add: upt_conv_Cons)
  finally show ?case .
qed

lemma MarshalBase32_ok:
  assumes wf: "wellformed s" and n: "nextBitIndex s = 5 * m"
  shows "MarshalBase32 s = Inr (map (\<lambda>g. base32Alphabet ! group_value s g) [0..<m])"
  using MarshalBase32_loop_ok [OF wf n, of 0 "[]"] n by (simp add: MarshalBase32_def Size_def)

lemma group_value_bit:
  assumes wf: "wellformed s" and g: "5 * g + 5 \<le> nextBitIndex s" and j: "j < 5"
  shows "group_value s g < 32"
    and "bit (group_value s g) (4 - j) = bit_in (slice_bytes (backingStore s)) (5 * g + j)"
proof -
  obtain w where rd: "UintAt s (5 * g) 5 = Inr w" and small: "unat w < 32"
    and bw: "\<And>m. m < 5 \<Longrightarrow> bit w m = bit_in (slice_bytes (backingStore s)) (5 * g + (4 - m))"
    using UintAt_group [OF wf g] by blast
  have gv: "group_value s g = unat w" using rd by (simp add: group_value_def)
  show "group_value s g < 32" using small gv by simp
  have a: "4 - j < 5" "4 - (4 - j) = j" using j by arith+
  have "bit (unat w) (4 - j) = bit w (4 - j)" by (simp add: bit_unsigned_iff)
  then show "bit (group_value s g) (4 - j) = bit_in (slice_bytes (backingStore s)) (5 * g + j)"
    using bw [OF a(1)] a(2) gv by simp
qed

text \<open>
  Claim C4. For a reachable stream whose size is a multiple of 5, \<open>MarshalBase32\<close> returns
  a string of \<open>Size/5\<close> characters of the alphabet, and \<open>UnmarshalBase32\<close> of that string,
  on any receiver, returns no error and gives a stream of the same size with the same
  \<open>BitAt(j)\<close> for every \<open>j\<close>.
\<close>

theorem base32_roundtrip:
  assumes "reachable s" and "Size s mod 5 = 0"
  shows "\<exists>str. MarshalBase32 s = Inr str
           \<and> length str = Size s div 5
           \<and> set str \<subseteq> set base32Alphabet
           \<and> (\<forall>r. \<exists>s1. UnmarshalBase32 str r = Some (Inr None, s1)
                  \<and> Size s1 = Size s
                  \<and> (\<forall>j. BitAt s1 j = BitAt s j))"
proof -
  have wf: "wellformed s" using assms(1) by (rule reachable_wellformed)
  define m where "m = Size s div 5"
  have n: "nextBitIndex s = 5 * m" using assms(2) unfolding m_def Size_def by presburger
  define str where "str = map (\<lambda>g. base32Alphabet ! group_value s g) [0..<m]"
  have mar: "MarshalBase32 s = Inr str" unfolding str_def using wf n by (rule MarshalBase32_ok)
  have len: "length str = m" by (simp add: str_def)
  have grp: "5 * g + 5 \<le> nextBitIndex s" if "g < m" for g using that n by simp
  have nth: "str ! g = base32Alphabet ! group_value s g" if "g < m" for g
    using that by (simp add: str_def)
  have small: "group_value s g < 32" if "g < m" for g
    using group_value_bit(1) [OF wf grp [OF that], of 0] by simp
  have valid: "\<forall>c\<in>set str. c \<in> set base32Alphabet"
    using small by (auto simp add: str_def length_base32Alphabet)
  have again: "\<exists>s1. UnmarshalBase32 str r = Some (Inr None, s1) \<and> Size s1 = Size s
                \<and> (\<forall>j. BitAt s1 j = BitAt s j)" for r
  proof -
    obtain s1 where run: "UnmarshalBase32 str r = Some (Inr None, s1)" and w1: "wellformed s1"
      and n1: "nextBitIndex s1 = 5 * length str"
      and bits: "\<And>q. q < 5 * length str \<Longrightarrow>
            bit_in (slice_bytes (backingStore s1)) q = decoded_bit str q"
      using UnmarshalBase32_valid [OF valid, of r] by blast
    have same: "nextBitIndex s1 = nextBitIndex s" using n1 n len by simp
    have "BitAt s1 j = BitAt s j" for j
    proof (cases "j < nextBitIndex s")
      case True
      define g where "g = j div 5"
      define k where "k = j mod 5"
      have j: "j = 5 * g + k" "k < 5" by (simp_all add: g_def k_def)
      have gm: "g < m" using True n unfolding g_def by simp
      have "bit_in (slice_bytes (backingStore s1)) j = decoded_bit str (5 * g + k)"
        using bits [of j] True n len j(1) by simp
      also have "\<dots> = bit (group_value s g) (4 - k)"
        using j(2) small [OF gm] nth [OF gm] by (rule decoded_bit_group)
      also have "\<dots> = bit_in (slice_bytes (backingStore s)) (5 * g + k)"
        using wf grp [OF gm] j(2) by (rule group_value_bit(2))
      finally have "bit_in (slice_bytes (backingStore s1)) j
                      = bit_in (slice_bytes (backingStore s)) j"
        using j(1) by simp
      then show ?thesis
        using BitAt_wellformed [OF wf True] BitAt_wellformed [OF w1, of j] True same
        by (simp add: msb_bit_eq_iff)
    next
      case False
      then show ?thesis using same by (simp add: BitAt_def)
    qed
    then show ?thesis using run same by (auto simp add: Size_def)
  qed
  have "set str \<subseteq> set base32Alphabet" using valid by blast
  then show ?thesis using mar len again unfolding m_def by blast
qed

lemma stream_of_five_bits:
  "AppendBits 5 [0x08] emptyBitStream =
     Some (None, \<lparr>nextBitIndex = 5,
                   backingStore = Some [0x08, 0, 0, 0, 0, 0, 0, 0, 0, 0, 0, 0, 0, 0, 0, 0]\<rparr>)"
  by code_simp

lemma reachable_five_bits:
  "reachable \<lparr>nextBitIndex = 5,
               backingStore = Some [0x08, 0, 0, 0, 0, 0, 0, 0, 0, 0, 0, 0, 0, 0, 0, 0]\<rparr>"
  using reach_empty stream_of_five_bits by (rule reach_AppendBits)

theorem base32_roundtrip_witness:
  "reachable \<lparr>nextBitIndex = 5,
               backingStore = Some [0x08, 0, 0, 0, 0, 0, 0, 0, 0, 0, 0, 0, 0, 0, 0, 0]\<rparr>
   \<and> Size \<lparr>nextBitIndex = 5,
            backingStore = Some [0x08, 0, 0, 0, 0, 0, 0, 0, 0, 0, 0, 0, 0, 0, 0, 0]\<rparr> mod 5 = 0
   \<and> (\<exists>str. MarshalBase32 \<lparr>nextBitIndex = 5,
            backingStore = Some [0x08, 0, 0, 0, 0, 0, 0, 0, 0, 0, 0, 0, 0, 0, 0, 0]\<rparr> = Inr str
          \<and> length str = 1
          \<and> (\<exists>s1. UnmarshalBase32 str emptyBitStream = Some (Inr None, s1)
                \<and> Size s1 = 5 \<and> BitAt s1 4 = Inr 1))"
proof -
  let ?S = "\<lparr>nextBitIndex = 5,
             backingStore = Some [0x08, 0, 0, 0, 0, 0, 0, 0, 0, 0, 0, 0, 0, 0, 0, 0 :: byte]\<rparr>"
  have h: "Size ?S mod 5 = 0" by (simp add: Size_def)
  obtain str where m: "MarshalBase32 ?S = Inr str" and l: "length str = Size ?S div 5"
    and u: "\<And>r. \<exists>s1. UnmarshalBase32 str r = Some (Inr None, s1) \<and> Size s1 = Size ?S
                \<and> (\<forall>j. BitAt s1 j = BitAt ?S j)"
    using base32_roundtrip [OF reachable_five_bits h] by blast
  obtain s1 where r: "UnmarshalBase32 str emptyBitStream = Some (Inr None, s1)"
    and sz: "Size s1 = Size ?S" and b: "BitAt s1 4 = BitAt ?S 4"
    using u [of emptyBitStream] by blast
  have "BitAt ?S 4 = Inr 1" by code_simp
  then show ?thesis using reachable_five_bits h m l r sz b by (auto simp add: Size_def)
qed

theorem UnmarshalBase32_decodes_witness:
  "set ''AB'' \<subseteq> set base32Alphabet
   \<and> (\<exists>s1. UnmarshalBase32 ''AB'' emptyBitStream = Some (Inr None, s1)
          \<and> Size s1 = 5 * length ''AB'')
   \<and> 1 < length ''A!C'' \<and> ''A!C'' ! 1 \<notin> set base32Alphabet
   \<and> set (take 1 ''A!C'') \<subseteq> set base32Alphabet
   \<and> (\<exists>s1. UnmarshalBase32 ''A!C'' emptyBitStream
            = Some (Inr (Some (InvalidBase32Character (''A!C'' ! 1))), s1)
          \<and> Size s1 = 5 * 1)"
proof -
  have h: "set ''AB'' \<subseteq> set base32Alphabet"
    "1 < length ''A!C'' \<and> ''A!C'' ! 1 \<notin> set base32Alphabet
       \<and> set (take 1 ''A!C'') \<subseteq> set base32Alphabet"
    by (simp_all add: base32Alphabet_def)
  show ?thesis
    using h
      UnmarshalBase32_decodes [where encoded = "''AB''" and s = emptyBitStream and n = 0]
      UnmarshalBase32_decodes [where encoded = "''A!C''" and s = emptyBitStream and n = 1]
    by blast
qed

section \<open>Big integers\<close>

lemma bit_length_le_iff: "bit_length n \<le> k \<longleftrightarrow> n < 2 ^ k"
proof (induction n arbitrary: k rule: bit_length.induct)
  case (1 n)
  show ?case
  proof (cases "n = 0")
    case True
    then show ?thesis by (subst bit_length.simps) simp
  next
    case False
    show ?thesis
    proof (cases k)
      case 0
      then show ?thesis using False by (subst bit_length.simps) simp
    next
      case (Suc j)
      have "bit_length n \<le> Suc j \<longleftrightarrow> bit_length (n div 2) \<le> j"
        using False by (subst bit_length.simps) simp
      also have "\<dots> \<longleftrightarrow> n div 2 < 2 ^ j" using False by (rule "1.IH")
      also have "\<dots> \<longleftrightarrow> n < 2 ^ Suc j" by (simp add: less_mult_imp_div_less div_less_iff_less_mult mult.commute)
      finally show ?thesis using Suc by simp
    qed
  qed
qed

lemma BitLen_fits: "0 \<le> v \<Longrightarrow> BitLen v \<le> n \<Longrightarrow> v < 2 ^ n"
proof -
  assume v: "0 \<le> v" and "BitLen v \<le> n"
  then have "nat v < 2 ^ n" by (simp add: BitLen_def bit_length_le_iff)
  then show ?thesis using v by (simp add: nat_less_iff)
qed

lemma FillBytes_ok:
  assumes "0 \<le> v" "v < 2 ^ (8 * m)"
  shows "\<exists>bytes. FillBytes v m = Inr bytes \<and> length bytes = m
           \<and> (\<forall>p<8 * m. bit_in bytes p = bit v (8 * m - 1 - p))"
proof -
  define bytes where
    "bytes = map (\<lambda>k. word_of_int (drop_bit (8 * (m - 1 - k)) v) :: byte) [0..<m]"
  have run: "FillBytes v m = Inr bytes" using assms by (simp add: FillBytes_def bytes_def)
  have "bit_in bytes p = bit v (8 * m - 1 - p)" if "p < 8 * m" for p
  proof -
    have d: "p div 8 < m" using that by simp
    have "p mod 8 < 8" by simp
    then have "8 * (m - 1 - p div 8) + (7 - p mod 8) = 8 * m - 1 - p"
      using d mult_div_mod_eq [of 8 p] by (simp add: algebra_simps) 
    then have e: "bit v (8 * (m - 1 - p div 8) + (7 - p mod 8)) = bit v (8 * m - 1 - p)"
      by (rule arg_cong)
    have "7 - p mod 8 < 8" by arith
    then have "bit_in bytes p = bit v (8 * (m - 1 - p div 8) + (7 - p mod 8))"
      using d by (simp add: bit_in_def bytes_def bit_word_of_int_iff bit_drop_bit_eq)
    then show ?thesis using e by simp
  qed
  then show ?thesis using run by (simp add: bytes_def)
qed

lemma SetBytes_snoc: "SetBytes (xs @ [x]) = concat_bit 8 (uint x) (SetBytes xs)"
proof -
  have "take_bit 8 (uint x) = uint x" by (simp add: take_bit_int_eq_self uint_lt2p [where 'a = 8, simplified])
  then show ?thesis by (simp add: SetBytes_def concat_bit_eq push_bit_eq_mult)
qed

lemma bit_SetBytes:
  "bit (SetBytes bs) k \<longleftrightarrow> k < 8 * length bs \<and> bit_in bs (8 * length bs - 1 - k)"
proof (induction bs arbitrary: k rule: rev_induct)
  case Nil
  show ?case by (simp add: SetBytes_def)
next
  case (snoc x xs)
  show ?case
  proof (cases "k < 8")
    case True
    define m where "m = 7 - k"
    have m: "m < 8" "7 - m = k" using True by (simp_all add: m_def)
    have "8 * length (xs @ [x]) - 1 - k = 8 * length xs + m" using True by (simp add: m_def)
    then have "(8 * length (xs @ [x]) - 1 - k) div 8 = length xs"
      "7 - (8 * length (xs @ [x]) - 1 - k) mod 8 = k"
      using m by simp_all
    then have "bit_in (xs @ [x]) (8 * length (xs @ [x]) - 1 - k) = bit x k"
      by (simp add: bit_in_def)
    then show ?thesis using True by (simp add: SetBytes_snoc bit_concat_bit_iff bit_uint_iff)
  next
    case False
    then have k8: "8 \<le> k" by simp
    show ?thesis
    proof (cases "k < 8 * length (xs @ [x])")
      case True
      then have lt: "k - 8 < 8 * length xs" using k8 by simp
      have idx: "8 * length (xs @ [x]) - 1 - k = 8 * length xs - 1 - (k - 8)"
        using k8 True by simp
      have "8 * length xs - 1 - (k - 8) < 8 * length xs" using lt by arith
      then have "(8 * length xs - 1 - (k - 8)) div 8 < length xs" by simp
      then have "bit_in (xs @ [x]) (8 * length xs - 1 - (k - 8))
                 = bit_in xs (8 * length xs - 1 - (k - 8))"
        by (simp add: bit_in_def nth_append)
      then show ?thesis
        using k8 True lt snoc.IH [of "k - 8"] unfolding idx
        by (simp add: SetBytes_snoc bit_concat_bit_iff)
    next
      case F: False
      then have "\<not> k - 8 < 8 * length xs" using k8 by simp
      then show ?thesis using k8 F snoc.IH [of "k - 8"]
        by (simp add: SetBytes_snoc bit_concat_bit_iff)
    qed
  qed
qed


lemma int_bit_small:
  fixes v :: int
  assumes "0 \<le> v" "v < 2 ^ n"
  shows "bit v k \<longleftrightarrow> k < n \<and> bit v k"
proof -
  have "take_bit n v = v" using assms by (simp add: take_bit_int_eq_self)
  then have "bit v k = bit (take_bit n v) k" by simp
  then show ?thesis by (simp add: bit_take_bit_iff)
qed

lemma bit_in_drop_one: "bs \<noteq> [] \<Longrightarrow> bit_in (drop 1 bs) p = bit_in bs (8 + p)"
proof (cases bs)
  case Nil
  assume "bs \<noteq> []"
  then show ?thesis using Nil by simp
next
  case (Cons b rest)
  have "(8 + p) div 8 = Suc (p div 8)" "(8 + p) mod 8 = p mod 8" by simp_all
  then show ?thesis using Cons by (simp add: bit_in_def)
qed

lemma aligned_bytes:
  fixes n :: nat
  assumes "n mod 8 = 0"
  shows "8 * ((n + 7) div 8) = n"
proof -
  have "n = 8 * (n div 8)" using assms by (simp add: mod_eq_0_iff_dvd)
  moreover have "(8 * (n div 8) + 7) div 8 = n div 8" by simp
  ultimately show ?thesis by simp
qed

lemma unaligned_bytes:
  fixes n :: nat
  assumes "n mod 8 \<noteq> 0"
  shows "8 * ((n + 7) div 8) = n - n mod 8 + 8"
proof -
  define q where "q = n div 8"
  define r where "r = n mod 8"
  have n: "n = 8 * q + r" by (simp add: q_def r_def)
  have r: "0 < r" "r < 8" using assms by (simp_all add: r_def)
  have "(r + 7) div 8 = 1" using r by arith
  then have "(8 * q + r + 7) div 8 = q + 1" by (simp add: add.assoc)
  then have "8 * ((n + 7) div 8) = 8 * q + 8" using n by simp
  moreover have "n - n mod 8 = 8 * q" by (simp add: q_def minus_mod_eq_mult_div)
  ultimately show ?thesis by simp
qed

lemma small_below_sign:
  assumes "(n + 7) div 8 \<le> maxAlloc"
  shows "n < 2 ^ 63"
proof -
  have "n < 8 * ((n + 7) div 8 + 1)" by arith
  also have "\<dots> \<le> 8 * (maxAlloc + 1)" using assms by simp
  also have "\<dots> < 2 ^ 63" by (simp add: maxAlloc_def)
  finally show ?thesis .
qed

lemma AppendBigInt_unfold:
  assumes lim: "(n + 7) div 8 \<le> maxAlloc" and len: "BitLen v \<le> n"
  shows "AppendBigInt v n s =
     (case FillBytes v ((n + 7) div 8) of
        Inl p \<Rightarrow> Some (Some p, s)
      | Inr bytes \<Rightarrow>
          (let offset = n mod 8
           in if offset = 0 then AppendBits n bytes s
              else
                (let firstByte = (ucast (bytes ! 0) :: uint64)
                 in case AppendUint firstByte offset s of
                      None \<Rightarrow> None
                    | Some (Some p, s1) \<Rightarrow> Some (Some p, s1)
                    | Some (None, s1) \<Rightarrow>
                        (let remainingSize = n - offset;
                             remainingBytes = drop 1 bytes
                         in AppendBits remainingSize remainingBytes s1))))"
proof -
  have n: "n < 2 ^ 63" using lim by (rule small_below_sign)
  have c: "\<not> int_of_uint n < int (BitLen v)"
    unfolding int_of_uint_small [OF n] using len by simp
  have "n + 7 < 2 ^ 64" using n by simp
  then have u: "uint_add n 7 = n + 7" by (rule uint_add_small)
  show ?thesis
    unfolding AppendBigInt_def u make_bytes_ok [OF lim] using c by simp
qed

lemma AppendBigInt_aligned:
  assumes ok: "appendable s" and v: "0 \<le> v" "v < 2 ^ n" and al: "n mod 8 = 0"
    and len: "BitLen v \<le> n" and lim: "(n + 7) div 8 \<le> maxAlloc"
  shows "\<exists>s1. AppendBigInt v n s = Some (None, s1) \<and> wellformed s1
           \<and> nextBitIndex s1 = nextBitIndex s + n
           \<and> (\<forall>j. j < n \<longrightarrow>
                 bit_in (slice_bytes (backingStore s1)) (nextBitIndex s + j) = bit v (n - 1 - j))"
proof -
  define m where "m = (n + 7) div 8"
  have n8: "8 * m = n" unfolding m_def using al by (rule aligned_bytes)
  obtain bytes where fb: "FillBytes v m = Inr bytes" and lb: "length bytes = m"
    and bb: "\<And>p. p < 8 * m \<Longrightarrow> bit_in bytes p = bit v (8 * m - 1 - p)"
    using FillBytes_ok [of v m] v n8 by auto
  have run: "AppendBigInt v n s = AppendBits n bytes s"
    using fb al by (simp add: AppendBigInt_unfold [OF lim len] m_def)
  have "bytesNeededForBits n \<le> length bytes"
    unfolding lb bytesNeeded_alt m_def by simp
  from AppendBits_spec [OF ok this]
  show ?thesis unfolding run using bb n8 by auto
qed

lemma AppendBigInt_unaligned:
  assumes ok: "appendable s" and v: "0 \<le> v" "v < 2 ^ n" and al: "n mod 8 \<noteq> 0"
    and len: "BitLen v \<le> n" and lim: "(n + 7) div 8 \<le> maxAlloc"
  shows "\<exists>s1. AppendBigInt v n s = Some (None, s1) \<and> wellformed s1
           \<and> nextBitIndex s1 = nextBitIndex s + n
           \<and> (\<forall>j. j < n \<longrightarrow>
                 bit_in (slice_bytes (backingStore s1)) (nextBitIndex s + j) = bit v (n - 1 - j))"
proof -
  define m where "m = (n + 7) div 8"
  define off where "off = n mod 8"
  have off: "0 < off" "off < 8" using al by (simp_all add: off_def)
  have n8: "8 * m = n - off + 8" "off \<le> n"
    unfolding m_def off_def using al by (simp_all add: unaligned_bytes)
  have vm: "v < 2 ^ (8 * m)"
  proof -
    have "n \<le> 8 * m" using n8 off by arith
    then have "(2 :: int) ^ n \<le> 2 ^ (8 * m)" by (rule power_increasing) simp
    then show ?thesis using v(2) by linarith
  qed
  obtain bytes where fb: "FillBytes v m = Inr bytes" and lb: "length bytes = m"
    and bb: "\<And>p. p < 8 * m \<Longrightarrow> bit_in bytes p = bit v (8 * m - 1 - p)"
    using FillBytes_ok [OF v(1) vm] by auto
  define firstByte where "firstByte = (ucast (bytes ! 0) :: uint64)"
  have b0: "bit (bytes ! 0) k = bit v (n - off + k)" if "k < 8" for k
  proof -
    have "7 - k < 8 * m" "7 - (7 - k) = k" "(7 - k) div 8 = 0" "(7 - k) mod 8 = 7 - k"
      using that n8 by simp_all
    then have "bit (bytes ! 0) k = bit_in bytes (7 - k)" by (simp add: bit_in_def)
    also have "\<dots> = bit v (8 * m - 1 - (7 - k))" using \<open>7 - k < 8 * m\<close> by (rule bb)
    also have "8 * m - 1 - (7 - k) = n - off + k" using that n8 by simp
    finally show ?thesis .
  qed
  have fbit: "bit firstByte k \<longleftrightarrow> k < off \<and> bit v (n - off + k)" for k
  proof (cases "k < 8")
    case True
    have "bit v (n - off + k) \<longleftrightarrow> n - off + k < n \<and> bit v (n - off + k)"
      using v by (rule int_bit_small)
    moreover have "n - off + k < n \<longleftrightarrow> k < off" using n8(2) off by arith
    ultimately show ?thesis
      using True b0 [OF True] by (auto simp add: firstByte_def bit_word_ucast_iff)
  next
    case False
    then show ?thesis using off by (simp add: firstByte_def bit_word_ucast_iff)
  qed
  have fit: "take_bit off firstByte = firstByte"
    by (rule bit_word_eqI) (auto simp add: bit_take_bit_iff fbit)
  obtain s1 where a1: "AppendUint firstByte off s = Some (None, s1)" and w1: "wellformed s1"
    and n1: "nextBitIndex s1 = nextBitIndex s + off"
    and new1: "\<And>j. j < off \<Longrightarrow>
          bit_in (slice_bytes (backingStore s1)) (nextBitIndex s + j) = bit firstByte (off - 1 - j)"
    using AppendUint_spec [OF ok _ fit] off by auto
  have lr: "bytesNeededForBits (n - off) \<le> length (drop 1 bytes)"
    unfolding bytesNeeded_alt using lb n8 by simp
  obtain s2 where a2: "AppendBits (n - off) (drop 1 bytes) s1 = Some (None, s2)"
    and w2: "wellformed s2" and n2: "nextBitIndex s2 = nextBitIndex s1 + (n - off)"
    and old2: "\<And>p. p < nextBitIndex s1 \<Longrightarrow>
          bit_in (slice_bytes (backingStore s2)) p = bit_in (slice_bytes (backingStore s1)) p"
    and new2: "\<And>j. j < n - off \<Longrightarrow>
          bit_in (slice_bytes (backingStore s2)) (nextBitIndex s1 + j) = bit_in (drop 1 bytes) j"
    using AppendBits_spec [OF wellformed_appendable [OF w1] lr] by blast
  have run: "AppendBigInt v n s = Some (None, s2)"
    using fb al a1 a2
    by (simp add: AppendBigInt_unfold [OF lim len] Let_def m_def [symmetric] off_def [symmetric]
        firstByte_def [symmetric])
  have "bit_in (slice_bytes (backingStore s2)) (nextBitIndex s + j) = bit v (n - 1 - j)"
    if "j < n" for j
  proof (cases "j < off")
    case True
    then have "off - 1 - j < off" "n - off + (off - 1 - j) = n - 1 - j"
      using n8(2) by arith+
    then show ?thesis
      using old2 [of "nextBitIndex s + j"] new1 [OF True] n1 True fbit [of "off - 1 - j"]
      by simp
  next
    case False
    then have j: "j - off < n - off" "nextBitIndex s + j = nextBitIndex s1 + (j - off)"
      using that n1 by simp_all
    have a: "8 + (j - off) < 8 * m" "8 * m - 1 - (8 + (j - off)) = n - 1 - j"
      using that False n8 by simp_all
    have "bytes \<noteq> []" using lb n8 by auto
    then have "bit_in (drop 1 bytes) (j - off) = bit_in bytes (8 + (j - off))"
      by (rule bit_in_drop_one)
    also have "\<dots> = bit v (8 * m - 1 - (8 + (j - off)))" using a(1) by (rule bb)
    finally have "bit_in (drop 1 bytes) (j - off) = bit v (n - 1 - j)" unfolding a(2) .
    then show ?thesis using new2 [OF j(1)] unfolding j(2) by simp
  qed
  then show ?thesis using run w2 n1 n2 n8(2) by auto
qed

lemma AppendBigInt_spec:
  assumes ok: "appendable s" and v: "0 \<le> v" and len: "BitLen v \<le> n"
    and lim: "(n + 7) div 8 \<le> maxAlloc"
  shows "\<exists>s1. AppendBigInt v n s = Some (None, s1) \<and> wellformed s1
           \<and> nextBitIndex s1 = nextBitIndex s + n
           \<and> (\<forall>j. j < n \<longrightarrow>
                 bit_in (slice_bytes (backingStore s1)) (nextBitIndex s + j) = bit v (n - 1 - j))"
proof (cases "n mod 8 = 0")
  case True
  with ok v BitLen_fits [OF v len] show ?thesis using len lim by (intro AppendBigInt_aligned)
next
  case False
  with ok v BitLen_fits [OF v len] show ?thesis using len lim by (intro AppendBigInt_unaligned)
qed


lemma BigIntAt_aligned:
  assumes cov: "nextBitIndex s \<le> 8 * length (slice_bytes (backingStore s))"
    and rng: "index + n \<le> nextBitIndex s" and al: "n mod 8 = 0"
    and lim: "bytesNeededForBits n \<le> maxAlloc"
  shows "\<exists>r. BigIntAt s index n = Inr r
           \<and> (\<forall>k. bit r k \<longleftrightarrow> k < n \<and> bit_in (slice_bytes (backingStore s)) (index + (n - 1 - k)))"
proof -
  define st where "st = slice_bytes (backingStore s)"
  obtain data where d: "BitsAt s index n = Inr data"
    and ld: "length data = bytesNeededForBits n"
    and bd: "\<And>p. p < 8 * length data \<Longrightarrow> bit_in data p = (p < n \<and> bit_in st (index + p))"
    using BitsAt_ok [OF cov rng lim] unfolding st_def by blast
  have l8: "8 * length data = n" unfolding ld bytesNeeded_alt using al by (rule aligned_bytes)
  have "bit (SetBytes data) k \<longleftrightarrow> k < n \<and> bit_in st (index + (n - 1 - k))" for k
  proof (cases "k < n")
    case True
    then have "n - 1 - k < 8 * length data" "n - 1 - k < n" using l8 by arith+
    then show ?thesis using bd [of "n - 1 - k"] True l8 by (simp add: bit_SetBytes)
  next
    case False
    then show ?thesis using l8 by (simp add: bit_SetBytes)
  qed
  then show ?thesis using d al unfolding st_def by (simp add: BigIntAt_def)
qed

lemma BigIntAt_unaligned:
  assumes cov: "nextBitIndex s \<le> 8 * length (slice_bytes (backingStore s))"
    and rng: "index + n \<le> nextBitIndex s" and al: "n mod 8 \<noteq> 0"
    and lim: "bytesNeededForBits n \<le> maxAlloc"
  shows "\<exists>r. BigIntAt s index n = Inr r
           \<and> (\<forall>k. bit r k \<longleftrightarrow> k < n \<and> bit_in (slice_bytes (backingStore s)) (index + (n - 1 - k)))"
proof -
  define st where "st = slice_bytes (backingStore s)"
  define off where "off = n mod 8"
  have off: "0 < off" "off < 8" "off \<le> n" using al by (simp_all add: off_def)
  obtain w where rd: "UintAt s index off = Inr w"
    and bw: "\<And>k. bit w k \<longleftrightarrow> k < off \<and> bit_in st (index + (off - 1 - k))"
    using UintAt_ok [OF cov, of off index] off rng unfolding st_def by auto
  have rng2: "index + off + (n - off) \<le> nextBitIndex s" using rng off by simp
  have "bytesNeededForBits (n - off) \<le> bytesNeededForBits n"
    unfolding bytesNeeded_alt by (rule div_le_mono) simp
  then have lim2: "bytesNeededForBits (n - off) \<le> maxAlloc" using lim by simp
  obtain rest where d: "BitsAt s (index + off) (n - off) = Inr rest"
    and lr: "length rest = bytesNeededForBits (n - off)"
    and br: "\<And>p. p < 8 * length rest \<Longrightarrow>
               bit_in rest p = (p < n - off \<and> bit_in st (index + off + p))"
    using BitsAt_ok [OF cov rng2 lim2] unfolding st_def by blast
  have "(n - off) mod 8 = 0" unfolding off_def by (simp add: minus_mod_eq_mult_div)
  then have l8: "8 * length rest = n - off" unfolding lr bytesNeeded_alt by (rule aligned_bytes)
  define fb where "fb = (ucast w :: byte)"
  have bfb: "bit fb k \<longleftrightarrow> k < off \<and> bit_in st (index + (off - 1 - k))" for k
    using bw [of k] off by (auto simp add: fb_def bit_word_ucast_iff)
  have run: "BigIntAt s index n = Inr (SetBytes (fb # rest))"
    using rd d al by (simp add: BigIntAt_def Let_def off_def [symmetric] fb_def)
  have "bit (SetBytes (fb # rest)) k \<longleftrightarrow> k < n \<and> bit_in st (index + (n - 1 - k))" for k
  proof -
    define q where "q = 8 * length (fb # rest) - 1 - k"
    have len: "8 * length (fb # rest) = n - off + 8" using l8 by simp
    have "bit (SetBytes (fb # rest)) k \<longleftrightarrow>
        k < 8 * length (fb # rest) \<and> bit_in (fb # rest) q"
      unfolding q_def by (rule bit_SetBytes)
    then have sb: "bit (SetBytes (fb # rest)) k \<longleftrightarrow>
        k < n - off + 8 \<and> (if q < 8 then bit fb (7 - q) else bit_in rest (q - 8))"
      unfolding bit_in_Cons len .
    consider "k < n - off" | "n - off \<le> k" "k < n" | "n \<le> k" "k < n - off + 8"
      | "n - off + 8 \<le> k" using off by linarith
    then show ?thesis
    proof cases
      case 1
      then have a: "\<not> q < 8" "q - 8 < 8 * length rest" "q - 8 < n - off"
        "index + off + (q - 8) = index + (n - 1 - k)" "k < n - off + 8" "k < n"
        unfolding q_def len using l8 off by arith+
      have "bit (SetBytes (fb # rest)) k = bit_in rest (q - 8)"
        unfolding sb using a(1,5) by simp
      also have "\<dots> = bit_in st (index + off + (q - 8))"
        using br [OF a(2)] a(3) by simp
      finally show ?thesis unfolding a(4) using a(6) by simp
    next
      case 2
      then have a: "q < 8" "7 - q = k - (n - off)"
        "k - (n - off) < off" "off - 1 - (k - (n - off)) = n - 1 - k" "k < n - off + 8"
        unfolding q_def len using off by arith+
      have "bit (SetBytes (fb # rest)) k = bit fb (k - (n - off))"
        unfolding sb using a(1,2,5) by simp
      also have "\<dots> = bit_in st (index + (off - 1 - (k - (n - off))))"
        unfolding bfb using a(3) by simp
      finally show ?thesis unfolding a(4) using 2 by simp
    next
      case 3
      then have a: "q < 8" "7 - q = k - (n - off)"
        "\<not> k - (n - off) < off" "\<not> k < n"
        unfolding q_def len using off by arith+
      have "bit (SetBytes (fb # rest)) k = bit fb (k - (n - off))"
        unfolding sb using a(1,2) 3 by simp
      then show ?thesis unfolding bfb using a(3,4) by simp
    next
      case 4
      then have "\<not> k < n - off + 8" "\<not> k < n" using off by arith+
      then show ?thesis unfolding sb by simp
    qed
  qed
  then show ?thesis using run unfolding st_def by simp
qed

lemma BigIntAt_spec:
  assumes cov: "nextBitIndex s \<le> 8 * length (slice_bytes (backingStore s))"
    and rng: "index + n \<le> nextBitIndex s"
    and lim: "bytesNeededForBits n \<le> maxAlloc"
  shows "\<exists>r. BigIntAt s index n = Inr r
           \<and> (\<forall>k. bit r k \<longleftrightarrow> k < n \<and> bit_in (slice_bytes (backingStore s)) (index + (n - 1 - k)))"
proof (cases "n mod 8 = 0")
  case True
  with cov rng show ?thesis using lim by (rule BigIntAt_aligned)
next
  case False
  with cov rng show ?thesis using lim by (rule BigIntAt_unaligned)
qed

lemma AppendBigInt_refused:
  assumes n: "n < 2 ^ 64" and big: "maxAlloc < (n + 7) div 8"
  shows "\<exists>e. AppendBigInt v n st = Some (Some e, st)"
proof (cases "n < 2 ^ 63")
  case True
  then have "n + 7 < 2 ^ 64" by simp
  then have "uint_add n 7 = n + 7" by (rule uint_add_small)
  then show ?thesis using big by (simp add: AppendBigInt_def make_bytes_def)
next
  case False
  then have "int_of_uint n < 0" using n by (intro int_of_uint_negative) simp_all
  then have "int_of_uint n < int (BitLen v)" by simp
  then show ?thesis by (simp add: AppendBigInt_def)
qed

text \<open>
  Claim C3. For every \<open>uint\<close> \<open>n\<close>, every non-negative big integer \<open>v\<close> of bit length at
  most \<open>n\<close> and every reachable stream: whenever \<open>AppendBigInt(v, n)\<close> is performed, which
  is to say returns normally, the stream is \<open>n\<close> bits longer and \<open>BigIntAt(i, n)\<close> at the
  old length \<open>i\<close> returns \<open>v\<close>, when \<open>n\<close> is a multiple of 8 and when it is not (the leading
  \<open>n mod 8\<close> bits through \<open>AppendUint\<close> and \<open>UintAt\<close>, the rest through \<open>AppendBits\<close> and
  \<open>BitsAt\<close>). The call is performed for every \<open>n\<close> whose \<open>(n + 7) / 8\<close> bytes \<open>make\<close>
  allocates; for a greater \<open>n\<close> it ends by a panic, of \<open>make\<close> or, from \<open>2^63\<close> on, of the
  check against \<open>int(nbits)\<close>, and leaves the stream as it is.
\<close>

theorem AppendBigInt_BigIntAt_roundtrip:
  assumes "reachable st" and "0 \<le> v" and "BitLen v \<le> n" and "n < 2 ^ 64"
  shows "((n + 7) div 8 \<le> maxAlloc \<longrightarrow> (\<exists>st1. AppendBigInt v n st = Some (None, st1)))
       \<and> (\<forall>st1. AppendBigInt v n st = Some (None, st1) \<longrightarrow>
              Size st1 = Size st + n \<and> BigIntAt st1 (Size st) n = Inr v)
       \<and> (maxAlloc < (n + 7) div 8 \<longrightarrow> (\<exists>e. AppendBigInt v n st = Some (Some e, st)))"
proof (cases "(n + 7) div 8 \<le> maxAlloc")
  case False
  then obtain e where "AppendBigInt v n st = Some (Some e, st)"
    using AppendBigInt_refused [OF assms(4), of v st] by auto
  then show ?thesis using False by simp
next
  case lim: True
  have wf: "wellformed st" using assms(1) by (rule reachable_wellformed)
  obtain st1 where run: "AppendBigInt v n st = Some (None, st1)" and w1: "wellformed st1"
    and n1: "nextBitIndex st1 = nextBitIndex st + n"
    and new: "\<And>j. j < n \<Longrightarrow>
          bit_in (slice_bytes (backingStore st1)) (nextBitIndex st + j) = bit v (n - 1 - j)"
    using AppendBigInt_spec [OF wellformed_appendable [OF wf] assms(2,3) lim] by blast
  have lim2: "bytesNeededForBits n \<le> maxAlloc" using lim by (simp add: bytesNeeded_alt)
  obtain r where rd: "BigIntAt st1 (nextBitIndex st) n = Inr r"
    and br: "\<And>k. bit r k \<longleftrightarrow>
          k < n \<and> bit_in (slice_bytes (backingStore st1)) (nextBitIndex st + (n - 1 - k))"
    using BigIntAt_spec [OF wellformed_covers [OF w1] _ lim2, of "nextBitIndex st"] n1 by auto
  have small: "bit v k \<longleftrightarrow> k < n \<and> bit v k" for k
    using assms(2) BitLen_fits [OF assms(2,3)] by (rule int_bit_small)
  have "r = v"
  proof (rule bit_eqI)
    fix k
    show "bit r k = bit v k"
    proof (cases "k < n")
      case True
      then have "n - 1 - k < n" "n - 1 - (n - 1 - k) = k" by arith+
      then show ?thesis using br [of k] new [of "n - 1 - k"] True by simp
    next
      case False
      then show ?thesis using br [of k] small [of k] by simp
    qed
  qed
  then show ?thesis using run rd n1 lim by (simp add: Size_def)
qed

lemma BitLen_five: "BitLen 5 = 3"
  by code_simp

theorem AppendBigInt_BigIntAt_roundtrip_witness:
  "reachable \<lparr>nextBitIndex = 3,
               backingStore = Some [0xE0, 0, 0, 0, 0, 0, 0, 0, 0, 0, 0, 0, 0, 0, 0, 0]\<rparr>
   \<and> (0 :: int) \<le> 5 \<and> BitLen 5 \<le> 11 \<and> (11 :: nat) < 2 ^ 64
   \<and> ((11 :: nat) + 7) div 8 \<le> maxAlloc
   \<and> (\<exists>st1. AppendBigInt 5 11
                \<lparr>nextBitIndex = 3,
                 backingStore = Some [0xE0, 0, 0, 0, 0, 0, 0, 0, 0, 0, 0, 0, 0, 0, 0, 0]\<rparr>
              = Some (None, st1)
            \<and> Size st1 = 14 \<and> BigIntAt st1 3 11 = Inr 5)
   \<and> reachable emptyBitStream \<and> BitLen 0 \<le> 2 ^ 63 \<and> (2 ^ 63 :: nat) < 2 ^ 64
   \<and> maxAlloc < ((2 ^ 63 :: nat) + 7) div 8
   \<and> (\<exists>e. AppendBigInt 0 (2 ^ 63) emptyBitStream = Some (Some e, emptyBitStream))"
proof -
  have h: "(0 :: int) \<le> 5" "BitLen 5 \<le> 11" "(11 :: nat) < 2 ^ 64"
    by (simp_all add: BitLen_five)
  have l: "((11 :: nat) + 7) div 8 \<le> maxAlloc" by (simp add: maxAlloc_def)
  have g: "(0 :: int) \<le> 0" "BitLen 0 \<le> 2 ^ 63" "(2 ^ 63 :: nat) < 2 ^ 64"
    by (simp_all add: BitLen_def bit_length.simps)
  have m: "maxAlloc < ((2 ^ 63 :: nat) + 7) div 8" by (simp add: maxAlloc_def)
  have first: "\<exists>st1. AppendBigInt 5 11
                \<lparr>nextBitIndex = 3,
                 backingStore = Some [0xE0, 0, 0, 0, 0, 0, 0, 0, 0, 0, 0, 0, 0, 0, 0, 0]\<rparr>
              = Some (None, st1)
            \<and> Size st1 = 14 \<and> BigIntAt st1 3 11 = Inr 5"
    using l AppendBigInt_BigIntAt_roundtrip [OF reachable_three_bits h]
    by (auto simp add: Size_def)
  have second: "\<exists>e. AppendBigInt 0 (2 ^ 63) emptyBitStream = Some (Some e, emptyBitStream)"
    using m AppendBigInt_BigIntAt_roundtrip [OF reach_empty g] by blast
  show ?thesis
    using reachable_three_bits h l reach_empty g m first second by blast
qed

section \<open>Accessors leave the heap as it is\<close>

lemma unchanged_refl: "unchanged h h"
  by (simp add: unchanged_def)

lemma unchanged_length: "unchanged h h1 \<Longrightarrow> length (arrays h) \<le> length (arrays h1)"
proof -
  assume "unchanged h h1"
  then have "length (take (length (arrays h)) (arrays h1)) = length (arrays h)"
    by (simp only: unchanged_def)
  then show ?thesis by simp
qed

lemma unchanged_trans:
  assumes "unchanged h h1" and "unchanged h1 h2"
  shows "unchanged h h2"
proof -
  have le: "length (arrays h) \<le> length (arrays h1)" using assms(1) by (rule unchanged_length)
  have "take (length (arrays h)) (arrays h2)
        = take (length (arrays h)) (take (length (arrays h1)) (arrays h2))"
    using le by (simp add: min_def)
  also have "\<dots> = arrays h" using assms by (simp add: unchanged_def)
  finally show ?thesis using assms by (simp add: unchanged_def)
qed

lemma unchanged_alloc: "unchanged h (snd (alloc n h))"
  by (simp add: unchanged_def alloc_def)

lemma unchanged_write_new:
  assumes "unchanged h h1" and "length (arrays h) \<le> r"
  shows "unchanged h (h1\<lparr>arrays := (arrays h1)[r := x]\<rparr>)"
  using assms by (simp add: unchanged_def)

lemma unchanged_stream_at:
  assumes "unchanged h h1" and "valid_ref h p"
  shows "stream_at h1 p = stream_at h p"
proof -
  have o: "objects h1 = objects h" using assms(1) by (simp add: unchanged_def)
  have "arrays h1 ! a = arrays h ! a" if "a < length (arrays h)" for a
  proof -
    have "take (length (arrays h)) (arrays h1) ! a = arrays h1 ! a" using that by simp
    then show ?thesis using assms(1) by (simp add: unchanged_def)
  qed
  then show ?thesis
    using assms(2) by (auto simp add: stream_at_def o valid_ref_def split: option.splits)
qed

lemma BitAt_heap_sim: "BitAt_heap i p h = (BitAt (stream_at h p) i, h)"
  by (simp add: BitAt_heap_def BitAt_def Let_def stream_at_def heap_slice_def slice_bytes_def
      split: option.splits)

lemma BitsAt_loop_heap_unchanged:
  assumes "unchanged h0 h" and "length (arrays h0) \<le> result"
  shows "unchanged h0 (snd (BitsAt_loop_heap index sz i bi sh result p h))"
  using assms(1)
proof (induction "sz - i" arbitrary: i bi sh h)
  case 0
  then show ?case by (subst BitsAt_loop_heap.simps) simp
next
  case (Suc n)
  define bi1 where "bi1 = (if sh < 0 then bi + 1 else bi)"
  define sh1 where "sh1 = (if sh < 0 then 7 else sh)"
  have i: "i < sz" using Suc.hyps(2) by simp
  show ?case
  proof (cases "BitAt (stream_at h p) (index + i)")
    case (Inl e)
    then show ?thesis
      using i Suc.prems by (subst BitsAt_loop_heap.simps) (simp add: BitAt_heap_sim Let_def)
  next
    case (Inr b)
    show ?thesis
    proof (cases "bi1 < length (arrays h ! result)")
      case False
      then show ?thesis
        using i Suc.prems Inr
        by (subst BitsAt_loop_heap.simps) (simp add: BitAt_heap_sim Let_def bi1_def)
    next
      case True
      define h2 where "h2 = h\<lparr>arrays := (arrays h)[result := (arrays h ! result)
                              [bi1 := arrays h ! result ! bi1 OR push_bit (nat sh1) b]]\<rparr>"
      have u2: "unchanged h0 h2"
        unfolding h2_def using Suc.prems assms(2) by (rule unchanged_write_new)
      have n: "n = sz - (i + 1)" using Suc.hyps(2) by simp
      have step: "BitsAt_loop_heap index sz i bi sh result p h
                  = BitsAt_loop_heap index sz (i + 1) bi1 (sh1 - 1) result p h2"
        using i Inr True
        by (subst BitsAt_loop_heap.simps)
           (simp add: BitAt_heap_sim Let_def bi1_def sh1_def h2_def)
      show ?thesis unfolding step using n u2 by (rule Suc.hyps(1))
    qed
  qed
qed

lemma BitsAt_heap_unchanged: "unchanged h (snd (BitsAt_heap index sz p h))"
proof (cases "objNextBitIndex (objects h ! p) < uint_add index sz \<or> maxAlloc < bytesNeededForBits sz")
  case True
  then show ?thesis by (auto simp add: BitsAt_heap_def make_heap_def unchanged_refl)
next
  case False
  have "unchanged h (snd (BitsAt_loop_heap index sz 0 0 7 (length (arrays h)) p
                            (h\<lparr>arrays := arrays h @ [replicate (bytesNeededForBits sz) 0]\<rparr>)))"
    by (rule BitsAt_loop_heap_unchanged) (simp_all add: unchanged_def)
  then show ?thesis using False by (simp add: BitsAt_heap_def make_heap_def alloc_def)
qed

lemma UintAt_heap_unchanged: "unchanged h (snd (UintAt_heap index sz p h))"
proof (cases "64 < sz")
  case True
  then show ?thesis by (simp add: UintAt_heap_def unchanged_refl)
next
  case False
  define h1 where "h1 = h\<lparr>arrays := arrays h @ [replicate 8 0]\<rparr>"
  obtain r h2 where run: "BitsAt_heap index sz p h1 = (r, h2)" by (cases "BitsAt_heap index sz p h1")
  have u1: "unchanged h h1" by (simp add: unchanged_def h1_def)
  have "unchanged h1 (snd (BitsAt_heap index sz p h1))" by (rule BitsAt_heap_unchanged)
  then have u2: "unchanged h h2" using u1 run by (auto intro: unchanged_trans)
  have u3: "unchanged h (copy_heap (length (arrays h)) src h2)" for src
    unfolding copy_heap_def using u2 by (rule unchanged_write_new) simp
  show ?thesis
    using False run u2 u3
    by (cases r)
       (auto simp add: UintAt_heap_def alloc_def h1_def [symmetric] Let_def split: sum.splits)
qed

text \<open>
  When the sum \<open>index+size\<close> of \<open>BitsAt\<close> wraps and so passes the check, the loop comes to
  an index that \<open>BitAt\<close> refuses, unless \<open>make\<close> has refused the length before.
\<close>

lemma BitsAt_loop_heap_panics:
  assumes "i \<le> k" and "k < sz" and "objNextBitIndex (objects h ! p) \<le> index + k"
  shows "\<exists>e. fst (BitsAt_loop_heap index sz i bi sh result p h) = Inl e"
  using assms
proof (induction "k - i" arbitrary: i bi sh h)
  case 0
  then have "i = k" by simp
  then show ?case
    using "0.prems" by (subst BitsAt_loop_heap.simps) (simp add: BitAt_heap_def Let_def)
next
  case (Suc n)
  define bi1 where "bi1 = (if sh < 0 then bi + 1 else bi)"
  define sh1 where "sh1 = (if sh < 0 then 7 else sh)"
  have i: "i < sz" "i + 1 \<le> k" using Suc.hyps(2) Suc.prems by simp_all
  show ?case
  proof (cases "BitAt (stream_at h p) (index + i)")
    case (Inl e)
    then show ?thesis
      using i by (subst BitsAt_loop_heap.simps) (simp add: BitAt_heap_sim Let_def)
  next
    case (Inr b)
    show ?thesis
    proof (cases "bi1 < length (arrays h ! result)")
      case False
      then show ?thesis
        using i Inr by (subst BitsAt_loop_heap.simps) (simp add: BitAt_heap_sim Let_def bi1_def)
    next
      case True
      define h2 where "h2 = h\<lparr>arrays := (arrays h)[result := (arrays h ! result)
                              [bi1 := arrays h ! result ! bi1 OR push_bit (nat sh1) b]]\<rparr>"
      have n: "n = k - (i + 1)" using Suc.hyps(2) by simp
      have o2: "objNextBitIndex (objects h2 ! p) \<le> index + k"
        using Suc.prems(3) by (simp add: h2_def)
      have step: "BitsAt_loop_heap index sz i bi sh result p h
                  = BitsAt_loop_heap index sz (i + 1) bi1 (sh1 - 1) result p h2"
        using i Inr True
        by (subst BitsAt_loop_heap.simps)
           (simp add: BitAt_heap_sim Let_def bi1_def sh1_def h2_def)
      show ?thesis unfolding step using n i(2) Suc.prems(2) o2 by (rule Suc.hyps(1))
    qed
  qed
qed

lemma BitsAt_heap_violation:
  assumes ib: "index < 2 ^ 64" and nb: "objNextBitIndex (objects h ! p) < 2 ^ 64"
    and out: "objNextBitIndex (objects h ! p) < index + sz"
  shows "\<exists>e h'. BitsAt_heap index sz p h = (Inl e, h') \<and> unchanged h h'"
proof -
  define nx where "nx = objNextBitIndex (objects h ! p)"
  have "\<exists>e. fst (BitsAt_heap index sz p h) = Inl e"
  proof (cases "nx < uint_add index sz \<or> maxAlloc < bytesNeededForBits sz")
    case True
    then show ?thesis by (auto simp add: BitsAt_heap_def make_heap_def nx_def)
  next
    case False
    define h1 where "h1 = h\<lparr>arrays := arrays h @ [replicate (bytesNeededForBits sz) 0]\<rparr>"
    define k where "k = nx - index"
    have "(index + sz) mod 2 ^ 64 \<noteq> index + sz"
      using False out by (auto simp add: uint_add_def nx_def)
    then have big: "2 ^ 64 \<le> index + sz" by (meson mod_less not_le)
    have k: "k < sz" "nx \<le> index + k"
      using big ib nb unfolding k_def nx_def by arith+
    have "objNextBitIndex (objects h1 ! p) \<le> index + k" using k(2) by (simp add: h1_def nx_def)
    then have "\<exists>e. fst (BitsAt_loop_heap index sz 0 0 7 (length (arrays h)) p h1) = Inl e"
      using k(1) by (intro BitsAt_loop_heap_panics [where k = k]) simp_all
    then show ?thesis
      using False by (simp add: BitsAt_heap_def make_heap_def alloc_def h1_def nx_def)
  qed
  moreover have "unchanged h (snd (BitsAt_heap index sz p h))" by (rule BitsAt_heap_unchanged)
  ultimately show ?thesis by (cases "BitsAt_heap index sz p h") auto
qed

section \<open>The heap model follows the first model\<close>

text \<open>
  The accessors over the heap return what the accessors of the first model return for the
  stream value of the receiver; the bytes of \<open>BitsAt\<close> are in the new array.
\<close>

lemma valid_ref_unchanged:
  assumes "unchanged h h1" and "valid_ref h p"
  shows "valid_ref h1 p"
  using assms unchanged_length [OF assms(1)]
  by (auto simp add: valid_ref_def unchanged_def split: option.splits)

lemma BitsAt_loop_heap_sim:
  assumes sep: "objBackingStore (objects h ! p) \<noteq> Some result"
    and rl: "result < length (arrays h)"
  shows "(case BitsAt_loop (stream_at h p) index sz i bi sh (arrays h ! result) of
            Inl e \<Rightarrow> fst (BitsAt_loop_heap index sz i bi sh result p h) = Inl e
          | Inr data \<Rightarrow>
              BitsAt_loop_heap index sz i bi sh result p h
                = (Inr result, h\<lparr>arrays := (arrays h)[result := data]\<rparr>))"
  using assms
proof (induction "sz - i" arbitrary: i bi sh h)
  case 0
  then have "\<not> i < sz" by simp
  then show ?case
    by (subst BitsAt_loop.simps, subst BitsAt_loop_heap.simps) (simp add: list_update_same_conv)
next
  case (Suc n)
  define s where "s = stream_at h p"
  define res where "res = arrays h ! result"
  define bi1 where "bi1 = (if sh < 0 then bi + 1 else bi)"
  define sh1 where "sh1 = (if sh < 0 then 7 else sh)"
  have i: "i < sz" using Suc.hyps(2) by simp
  show ?case
  proof (cases "BitAt s (index + i)")
    case (Inl e)
    then show ?thesis
      using i unfolding s_def
      by (subst BitsAt_loop.simps, subst BitsAt_loop_heap.simps)
         (simp add: BitAt_heap_sim Let_def)
  next
    case (Inr b)
    show ?thesis
    proof (cases "bi1 < length res")
      case False
      then show ?thesis
        using i Inr unfolding s_def res_def
        by (subst BitsAt_loop.simps, subst BitsAt_loop_heap.simps)
           (simp add: BitAt_heap_sim Let_def bi1_def)
    next
      case True
      define res1 where "res1 = res[bi1 := res ! bi1 OR push_bit (nat sh1) b]"
      define h2 where "h2 = h\<lparr>arrays := (arrays h)[result := res1]\<rparr>"
      have n: "n = sz - (i + 1)" using Suc.hyps(2) by simp
      have sep2: "objBackingStore (objects h2 ! p) \<noteq> Some result"
        using Suc.prems(1) by (simp add: h2_def)
      have rl2: "result < length (arrays h2)" using Suc.prems(2) by (simp add: h2_def)
      have st2: "stream_at h2 p = s"
        using Suc.prems(1)
        by (cases "objBackingStore (objects h ! p)") (auto simp add: stream_at_def h2_def s_def)
      have a2: "arrays h2 ! result = res1" using Suc.prems(2) by (simp add: h2_def)
      have w2: "h2\<lparr>arrays := (arrays h2)[result := data]\<rparr> = h\<lparr>arrays := (arrays h)[result := data]\<rparr>"
        for data by (simp add: h2_def)
      have hstep: "BitsAt_loop_heap index sz i bi sh result p h
                   = BitsAt_loop_heap index sz (i + 1) bi1 (sh1 - 1) result p h2"
        using i Inr True unfolding s_def res_def
        by (subst BitsAt_loop_heap.simps)
           (simp add: BitAt_heap_sim Let_def bi1_def sh1_def h2_def res1_def res_def)
      have vstep: "BitsAt_loop s index sz i bi sh res
                   = BitsAt_loop s index sz (i + 1) bi1 (sh1 - 1) res1"
        using i Inr True
        by (subst BitsAt_loop.simps) (simp add: Let_def bi1_def sh1_def res1_def)
      have "(case BitsAt_loop (stream_at h2 p) index sz (i + 1) bi1 (sh1 - 1) (arrays h2 ! result) of
               Inl e \<Rightarrow> fst (BitsAt_loop_heap index sz (i + 1) bi1 (sh1 - 1) result p h2) = Inl e
             | Inr data \<Rightarrow>
                 BitsAt_loop_heap index sz (i + 1) bi1 (sh1 - 1) result p h2
                   = (Inr result, h2\<lparr>arrays := (arrays h2)[result := data]\<rparr>))"
        using n sep2 rl2 by (rule Suc.hyps(1))
      then show ?thesis
        unfolding s_def [symmetric] res_def [symmetric] hstep vstep st2 a2 w2 .
    qed
  qed
qed

lemma BitsAt_heap_sim:
  assumes "valid_ref h p"
  shows "(case BitsAt (stream_at h p) index sz of
            Inl e \<Rightarrow> fst (BitsAt_heap index sz p h) = Inl e
          | Inr data \<Rightarrow>
              BitsAt_heap index sz p h = (Inr (length (arrays h)), h\<lparr>arrays := arrays h @ [data]\<rparr>))"
proof (cases "objNextBitIndex (objects h ! p) < uint_add index sz \<or> maxAlloc < bytesNeededForBits sz")
  case True
  then show ?thesis
    by (auto simp add: BitsAt_heap_def BitsAt_def make_heap_def make_bytes_def stream_at_def)
next
  case False
  define h1 where "h1 = h\<lparr>arrays := arrays h @ [replicate (bytesNeededForBits sz) 0]\<rparr>"
  define m where "m = length (arrays h)"
  have sep: "objBackingStore (objects h1 ! p) \<noteq> Some m"
    using assms by (auto simp add: valid_ref_def h1_def m_def split: option.splits)
  have rl: "m < length (arrays h1)" by (simp add: h1_def m_def)
  have st: "stream_at h1 p = stream_at h p"
    using assms by (auto simp add: stream_at_def valid_ref_def h1_def nth_append split: option.splits)
  have a: "arrays h1 ! m = replicate (bytesNeededForBits sz) 0" by (simp add: h1_def m_def)
  have w: "h1\<lparr>arrays := (arrays h1)[m := data]\<rparr> = h\<lparr>arrays := arrays h @ [data]\<rparr>" for data
    by (simp add: h1_def m_def)
  have hrun: "BitsAt_heap index sz p h = BitsAt_loop_heap index sz 0 0 7 m p h1"
    using False by (simp add: BitsAt_heap_def make_heap_def alloc_def h1_def m_def)
  have vrun: "BitsAt (stream_at h p) index sz
              = BitsAt_loop (stream_at h p) index sz 0 0 7 (replicate (bytesNeededForBits sz) 0)"
    using False by (simp add: BitsAt_def make_bytes_def stream_at_def)
  have "(case BitsAt_loop (stream_at h p) index sz 0 0 7 (replicate (bytesNeededForBits sz) 0) of
           Inl e \<Rightarrow> fst (BitsAt_loop_heap index sz 0 0 7 m p h1) = Inl e
         | Inr data \<Rightarrow>
             BitsAt_loop_heap index sz 0 0 7 m p h1 = (Inr m, h\<lparr>arrays := arrays h @ [data]\<rparr>))"
    using BitsAt_loop_heap_sim [OF sep rl, of index sz 0 0 7] unfolding st a w .
  then show ?thesis unfolding hrun vrun m_def .
qed

lemma UintAt_heap_sim:
  assumes "valid_ref h p"
  shows "fst (UintAt_heap index sz p h) = UintAt (stream_at h p) index sz"
proof (cases "64 < sz")
  case True
  then show ?thesis by (simp add: UintAt_heap_def UintAt_def)
next
  case False
  define h1 where "h1 = h\<lparr>arrays := arrays h @ [replicate 8 0]\<rparr>"
  define m where "m = length (arrays h)"
  have v1: "valid_ref h1 p"
    using assms by (auto simp add: valid_ref_def h1_def split: option.splits)
  have st: "stream_at h1 p = stream_at h p"
    using assms by (auto simp add: stream_at_def valid_ref_def h1_def nth_append split: option.splits)
  have hrun: "UintAt_heap index sz p h =
      (case BitsAt_heap index sz p h1 of
         (Inl e, h2) \<Rightarrow> (Inl e, h2)
       | (Inr data, h2) \<Rightarrow>
           (case Uint64 (arrays (copy_heap m (Some data) h2) ! m) of
              Inl e \<Rightarrow> (Inl e, copy_heap m (Some data) h2)
            | Inr w \<Rightarrow> (Inr (drop_bit (64 - sz) w), copy_heap m (Some data) h2)))"
    unfolding UintAt_heap_def alloc_def Let_def h1_def m_def using False by simp
  show ?thesis
  proof (cases "BitsAt (stream_at h p) index sz")
    case (Inl e)
    then have "fst (BitsAt_heap index sz p h1) = Inl e"
      using BitsAt_heap_sim [OF v1, of index sz] unfolding st by simp
    then show ?thesis
      using False Inl unfolding hrun
      by (cases "BitsAt_heap index sz p h1") (simp add: UintAt_def)
  next
    case (Inr data)
    then have b: "BitsAt_heap index sz p h1
                  = (Inr (length (arrays h1)), h1\<lparr>arrays := arrays h1 @ [data]\<rparr>)"
      using BitsAt_heap_sim [OF v1, of index sz] unfolding st by simp
    have c: "arrays (copy_heap m (Some (length (arrays h1))) (h1\<lparr>arrays := arrays h1 @ [data]\<rparr>)) ! m
             = copy_bytes (replicate 8 0) data"
      by (simp add: copy_heap_def heap_slice_def h1_def m_def nth_append)
    show ?thesis
      using False Inr unfolding hrun b
      by (simp add: c UintAt_def Let_def split: sum.splits)
  qed
qed

lemma MarshalBase32_loop_heap_sim:
  assumes "valid_ref h p"
  shows "\<exists>h'. MarshalBase32_loop_heap i result p h
                 = Some (MarshalBase32_loop (stream_at h p) i result, h')
              \<and> unchanged h h'"
  using assms
proof (induction "nextBitIndex (stream_at h p) - i" arbitrary: i result h rule: less_induct)
  case less
  define s where "s = stream_at h p"
  have nx: "objNextBitIndex (objects h ! p) = nextBitIndex s" by (simp add: s_def stream_at_def)
  show ?case
  proof (cases "i < nextBitIndex s")
    case False
    then show ?thesis
      unfolding s_def [symmetric]
      by (subst MarshalBase32_loop_heap.simps, subst MarshalBase32_loop.simps)
         (simp add: nx unchanged_refl)
  next
    case True
    obtain r h1 where u: "UintAt_heap i 5 p h = (r, h1)" by (cases "UintAt_heap i 5 p h")
    have r: "UintAt s i 5 = r"
      using UintAt_heap_sim [OF less.prems, of i 5] u by (simp add: s_def)
    have un: "unchanged h h1" using UintAt_heap_unchanged [of h i 5 p] u by simp
    have v1: "valid_ref h1 p" using un less.prems by (rule valid_ref_unchanged)
    have st1: "stream_at h1 p = s" unfolding s_def using un less.prems by (rule unchanged_stream_at)
    have hstep: "MarshalBase32_loop_heap i result p h =
        (case r of
           Inl e \<Rightarrow> Some (Inl e, h1)
         | Inr v \<Rightarrow>
             if unat v < length base32Alphabet
             then MarshalBase32_loop_heap (i + 5) (result @ [base32Alphabet ! unat v]) p h1
             else Some (Inl IndexOutOfRange, h1))"
      using True by (subst MarshalBase32_loop_heap.simps) (simp add: nx u)
    have vstep: "MarshalBase32_loop s i result =
        (case r of
           Inl e \<Rightarrow> Inl e
         | Inr v \<Rightarrow>
             if unat v < length base32Alphabet
             then MarshalBase32_loop s (i + 5) (result @ [base32Alphabet ! unat v])
             else Inl IndexOutOfRange)"
      using True by (subst MarshalBase32_loop.simps) (simp add: r)
    show ?thesis
    proof (cases r)
      case (Inl e)
      then show ?thesis unfolding s_def [symmetric] hstep vstep using un by simp
    next
      case (Inr v)
      show ?thesis
      proof (cases "unat v < length base32Alphabet")
        case False
        then show ?thesis unfolding s_def [symmetric] hstep vstep using un Inr by simp
      next
        case ok: True
        have "nextBitIndex (stream_at h1 p) - (i + 5) < nextBitIndex (stream_at h p) - i"
          unfolding st1 s_def [symmetric] using True by simp
        then obtain h' where
          run: "MarshalBase32_loop_heap (i + 5) (result @ [base32Alphabet ! unat v]) p h1
                  = Some (MarshalBase32_loop (stream_at h1 p) (i + 5)
                            (result @ [base32Alphabet ! unat v]), h')"
          and u2: "unchanged h1 h'"
          using less.hyps [OF _ v1] by blast
        have "unchanged h h'" using un u2 by (rule unchanged_trans)
        then show ?thesis
          unfolding s_def [symmetric] hstep vstep using Inr ok run by (simp add: st1)
      qed
    qed
  qed
qed

lemma MarshalBase32_heap_sim:
  assumes "valid_ref h p"
  shows "\<exists>h'. MarshalBase32_heap p h = Some (MarshalBase32 (stream_at h p), h') \<and> unchanged h h'"
proof (cases "nextBitIndex (stream_at h p) mod 5 = 0")
  case True
  then show ?thesis
    using MarshalBase32_loop_heap_sim [OF assms, of 0 "[]"]
    by (simp add: MarshalBase32_heap_def MarshalBase32_def Size_def stream_at_def)
next
  case False
  then show ?thesis
    by (simp add: MarshalBase32_heap_def MarshalBase32_def Size_def stream_at_def unchanged_refl)
qed

lemma write_back_id: "owns h p ta \<Longrightarrow> write_back h p ta (stream_at h p) = h"
  by (simp add: write_back_def stream_at_def owns_def slice_bytes_def list_update_same_conv)

lemma stream_at_write_back:
  "owns h p ta \<Longrightarrow> backingStore s \<noteq> None \<Longrightarrow> stream_at (write_back h p ta s) p = s"
  by (auto simp add: write_back_def stream_at_def owns_def slice_bytes_def)

lemma owns_write_back: "owns h p ta \<Longrightarrow> owns (write_back h p ta s) p ta"
  by (simp add: write_back_def owns_def)

lemma write_back_twice:
  "write_back (write_back h p ta s) p ta s1 = write_back h p ta s1"
  by (simp add: write_back_def)

lemma heap_slice_write_back:
  "\<forall>ba. bits = Some ba \<longrightarrow> ba \<noteq> ta \<Longrightarrow> heap_slice (write_back h p ta s) bits = heap_slice h bits"
  by (auto simp add: write_back_def heap_slice_def split: option.splits)

lemma objects_same:
  assumes "owns h p ta"
  shows "(objects h)[p := \<lparr>objNextBitIndex = objNextBitIndex (objects h ! p),
                            objBackingStore = Some ta\<rparr>] = objects h"
proof -
  have "\<lparr>objNextBitIndex = objNextBitIndex (objects h ! p), objBackingStore = Some ta\<rparr>
        = objects h ! p"
    using assms by (simp add: owns_def)
  then show ?thesis by (simp add: list_update_same_conv)
qed

lemma or_at_heap_sim:
  assumes "owns h p ta"
  shows "or_at_heap i v p h = map_option (write_back h p ta) (or_at i v (stream_at h p))"
proof -
  have st: "objBackingStore (objects h ! p) = Some ta" using assms by (simp add: owns_def)
  show ?thesis
    unfolding or_at_heap_def or_at_def st write_back_def Let_def
    by (simp add: stream_at_def st slice_bytes_def objects_same [OF assms])
qed

lemma or_at_Some_store: "or_at i v s = Some s1 \<Longrightarrow> backingStore s1 \<noteq> None"
  by (auto simp add: or_at_def Let_def split: if_splits)

lemma appendFullBytes_store:
  "backingStore s \<noteq> None \<Longrightarrow> backingStore (snd (appendFullBytes off left bts s)) \<noteq> None"
proof (induction bts arbitrary: s)
  case Nil
  then show ?case by simp
next
  case (Cons bt bts)
  show ?case
  proof (cases "or_at (nextBitIndex s div 8) (topNBits bt left) s")
    case None
    then show ?thesis using Cons.prems by simp
  next
    case (Some s1)
    show ?thesis
    proof (cases "or_at (nextBitIndex s div 8 + 1) (push_bit left (bottomNBits bt off)) s1")
      case None
      then show ?thesis using Some or_at_Some_store [OF Some] by simp
    next
      case s2: (Some s2)
      have "backingStore (s2\<lparr>nextBitIndex := nextBitIndex s2 + 8\<rparr>) \<noteq> None"
        using or_at_Some_store [OF s2] by simp
      from Cons.IH [OF this] show ?thesis using Some s2 by (simp add: Let_def)
    qed
  qed
qed

lemma set_nextBitIndex_write_back:
  "owns h p ta \<Longrightarrow>
   set_nextBitIndex p n (write_back h p ta s) = write_back h p ta (s\<lparr>nextBitIndex := n\<rparr>)"
  by (simp add: set_nextBitIndex_def write_back_def owns_def)

lemma next_write_back:
  "owns h p ta \<Longrightarrow> objNextBitIndex (objects (write_back h p ta s) ! p) = nextBitIndex s"
  by (simp add: write_back_def owns_def)

lemma appendFullBytes_heap_sim:
  assumes "owns h p ta" and "\<forall>ba. bits = Some ba \<longrightarrow> ba \<noteq> ta"
  shows "appendFullBytes_heap off left bits ks p h =
           (case appendFullBytes off left (map (\<lambda>k. heap_slice h bits ! k) ks) (stream_at h p) of
              (r, s1) \<Rightarrow> (r, write_back h p ta s1))"
  using assms(1)
proof (induction ks arbitrary: h)
  case Nil
  then show ?case by (simp add: write_back_id)
next
  case (Cons k ks)
  define s where "s = stream_at h p"
  define bt where "bt = heap_slice h bits ! k"
  have nx: "objNextBitIndex (objects h ! p) = nextBitIndex s" by (simp add: s_def stream_at_def)
  have wid: "write_back h p ta s = h" unfolding s_def using Cons.prems by (rule write_back_id)
  show ?case
  proof (cases "or_at (nextBitIndex s div 8) (topNBits bt left) s")
    case None
    then show ?thesis
      by (simp add: or_at_heap_sim [OF Cons.prems] nx s_def [symmetric] bt_def [symmetric] wid)
  next
    case (Some s1)
    define h1 where "h1 = write_back h p ta s1"
    have o1: "owns h1 p ta" unfolding h1_def using Cons.prems by (rule owns_write_back)
    have wb1: "write_back h1 p ta x = write_back h p ta x" for x
      by (simp add: h1_def write_back_twice)
    have st1: "stream_at h1 p = s1"
      unfolding h1_def using Cons.prems or_at_Some_store [OF Some] by (rule stream_at_write_back)
    show ?thesis
    proof (cases "or_at (nextBitIndex s div 8 + 1) (push_bit left (bottomNBits bt off)) s1")
      case None
      then show ?thesis
        using Some
        by (simp add: or_at_heap_sim [OF Cons.prems] or_at_heap_sim [OF o1] nx s_def [symmetric]
            bt_def [symmetric] h1_def [symmetric] st1 Let_def)
    next
      case s2: (Some s2)
      define h2 where "h2 = write_back h p ta (s2\<lparr>nextBitIndex := nextBitIndex s2 + 8\<rparr>)"
      have o2: "owns h2 p ta" unfolding h2_def using Cons.prems by (rule owns_write_back)
      have st2: "stream_at h2 p = s2\<lparr>nextBitIndex := nextBitIndex s2 + 8\<rparr>"
        unfolding h2_def using Cons.prems or_at_Some_store [OF s2]
        by (intro stream_at_write_back) simp_all
      have sl: "heap_slice h2 bits = heap_slice h bits"
        unfolding h2_def using assms(2) by (rule heap_slice_write_back)
      have step: "appendFullBytes_heap off left bits (k # ks) p h
                  = appendFullBytes_heap off left bits ks p h2"
        using Some s2
        by (simp add: or_at_heap_sim [OF Cons.prems] or_at_heap_sim [OF o1] nx s_def [symmetric]
            bt_def [symmetric] h1_def [symmetric] st1 Let_def wb1
            set_nextBitIndex_write_back [OF Cons.prems] next_write_back [OF Cons.prems] h2_def)
      have vstep: "appendFullBytes off left (map (\<lambda>k. heap_slice h bits ! k) (k # ks)) s
                  = appendFullBytes off left (map (\<lambda>k. heap_slice h bits ! k) ks)
                      (s2\<lparr>nextBitIndex := nextBitIndex s2 + 8\<rparr>)"
        using Some s2 by (simp add: bt_def [symmetric] Let_def)
      show ?thesis
        unfolding step s_def [symmetric] vstep Cons.IH [OF o2] st2 sl
        by (simp add: h2_def write_back_twice split: prod.splits)
    qed
  qed
qed


lemma appendLastByte_heap_sim:
  assumes own: "owns h p ta" and na: "\<forall>ba. bits = Some ba \<longrightarrow> ba \<noteq> ta"
  shows "appendLastByte_heap sz left bits nf p h =
           (case appendLastByte sz left (heap_slice h bits ! nf) (stream_at h p) of
              (r, s1) \<Rightarrow> (r, write_back h p ta s1))"
proof -
  define s where "s = stream_at h p"
  define b where "b = heap_slice h bits ! nf"
  define tc where "tc = min (sz mod 8) left"
  define bc where "bc = sz mod 8 - tc"
  define shiftedTop where "shiftedTop = push_bit (8 - nextBitIndex s mod 8 - tc) (topNBits b tc)"
  define shiftedBottom where "shiftedBottom = push_bit (8 - bc)
      (bottomNBits (drop_bit (unat (8 - of_nat tc - of_nat bc :: byte)) b) bc)"
  have nx: "objNextBitIndex (objects h ! p) = nextBitIndex s" by (simp add: s_def stream_at_def)
  have wid: "write_back h p ta s = h" unfolding s_def using own by (rule write_back_id)
  have sl: "heap_slice (write_back h p ta x) bits = heap_slice h bits" for x
    using na by (rule heap_slice_write_back)
  have v: "appendLastByte sz left b s =
      (case or_at (nextBitIndex s div 8) shiftedTop s of
           None \<Rightarrow> (Some IndexOutOfRange, s)
         | Some s1 \<Rightarrow>
             (if 0 < bc then
                (case or_at (nextBitIndex (s1\<lparr>nextBitIndex := nextBitIndex s1 + tc\<rparr>) div 8)
                        shiftedBottom (s1\<lparr>nextBitIndex := nextBitIndex s1 + tc\<rparr>) of
                   None \<Rightarrow> (Some IndexOutOfRange, s1\<lparr>nextBitIndex := nextBitIndex s1 + tc\<rparr>)
                 | Some s3 \<Rightarrow> (None, s3\<lparr>nextBitIndex := nextBitIndex s3 + bc\<rparr>))
              else (None, s1\<lparr>nextBitIndex := nextBitIndex s1 + tc\<rparr>)))"
    unfolding appendLastByte_def Let_def shiftedTop_def shiftedBottom_def bc_def tc_def
    by (rule refl)
  have hu: "appendLastByte_heap sz left bits nf p h =
      (case or_at_heap (nextBitIndex s div 8) shiftedTop p h of
         None \<Rightarrow> (Some IndexOutOfRange, h)
       | Some h1 \<Rightarrow>
           if 0 < bc then
             (case or_at_heap
                     (objNextBitIndex (objects (set_nextBitIndex p
                        (objNextBitIndex (objects h1 ! p) + tc) h1) ! p) div 8)
                     (push_bit (8 - bc)
                        (bottomNBits (drop_bit (unat (8 - of_nat tc - of_nat bc :: byte))
                           (heap_slice (set_nextBitIndex p
                              (objNextBitIndex (objects h1 ! p) + tc) h1) bits ! nf)) bc))
                     p (set_nextBitIndex p (objNextBitIndex (objects h1 ! p) + tc) h1) of
                None \<Rightarrow> (Some IndexOutOfRange,
                           set_nextBitIndex p (objNextBitIndex (objects h1 ! p) + tc) h1)
              | Some h3 \<Rightarrow>
                  (None, set_nextBitIndex p (objNextBitIndex (objects h3 ! p) + bc) h3))
           else (None, set_nextBitIndex p (objNextBitIndex (objects h1 ! p) + tc) h1))"
    unfolding appendLastByte_heap_def Let_def nx shiftedTop_def bc_def tc_def b_def
    by (rule refl)
  show ?thesis
  proof (cases "or_at (nextBitIndex s div 8) shiftedTop s")
    case None
    then have "or_at_heap (nextBitIndex s div 8) shiftedTop p h = None"
      by (simp add: or_at_heap_sim [OF own] s_def [symmetric])
    then show ?thesis
      unfolding hu s_def [symmetric] b_def [symmetric] v using None by (simp add: wid)
  next
    case (Some s1)
    define s2 where "s2 = s1\<lparr>nextBitIndex := nextBitIndex s1 + tc\<rparr>"
    define h2 where "h2 = write_back h p ta s2"
    have o2: "owns h2 p ta" unfolding h2_def using own by (rule owns_write_back)
    have b2: "backingStore s2 \<noteq> None" using or_at_Some_store [OF Some] by (simp add: s2_def)
    have st2: "stream_at h2 p = s2"
      unfolding h2_def using own b2 by (rule stream_at_write_back)
    have wb2: "write_back h2 p ta x = write_back h p ta x" for x
      by (simp add: h2_def write_back_twice)
    have first: "or_at_heap (nextBitIndex s div 8) shiftedTop p h = Some (write_back h p ta s1)"
      using Some by (simp add: or_at_heap_sim [OF own] s_def [symmetric])
    have h2': "set_nextBitIndex p (objNextBitIndex (objects (write_back h p ta s1) ! p) + tc)
                 (write_back h p ta s1) = h2"
      using own by (simp add: set_nextBitIndex_write_back next_write_back h2_def s2_def)
    have n2: "objNextBitIndex (objects h2 ! p) = nextBitIndex s2"
      unfolding h2_def using own by (rule next_write_back)
    have sl2: "heap_slice h2 bits ! nf = b" unfolding h2_def sl b_def ..
    have heap_run: "appendLastByte_heap sz left bits nf p h =
        (if 0 < bc then
           (case or_at_heap (nextBitIndex s2 div 8) shiftedBottom p h2 of
              None \<Rightarrow> (Some IndexOutOfRange, h2)
            | Some h3 \<Rightarrow>
                (None, set_nextBitIndex p (objNextBitIndex (objects h3 ! p) + bc) h3))
         else (None, h2))"
      unfolding hu first option.case h2' n2 sl2 shiftedBottom_def by (rule refl)
    have val_run: "appendLastByte sz left b s =
        (if 0 < bc then
           (case or_at (nextBitIndex s2 div 8) shiftedBottom s2 of
              None \<Rightarrow> (Some IndexOutOfRange, s2)
            | Some s3 \<Rightarrow> (None, s3\<lparr>nextBitIndex := nextBitIndex s3 + bc\<rparr>))
         else (None, s2))"
      unfolding v Some option.case s2_def by (rule refl)
    show ?thesis
    proof (cases "0 < bc")
      case False
      then show ?thesis
        unfolding heap_run s_def [symmetric] b_def [symmetric] val_run
        by (simp add: h2_def [symmetric])
    next
      case True
      show ?thesis
      proof (cases "or_at (nextBitIndex s2 div 8) shiftedBottom s2")
        case None
        then show ?thesis
          unfolding heap_run s_def [symmetric] b_def [symmetric] val_run
          using True by (simp add: or_at_heap_sim [OF o2] st2 h2_def [symmetric])
      next
        case s3: (Some s3)
        have "set_nextBitIndex p (objNextBitIndex (objects (write_back h p ta s3) ! p) + bc)
                 (write_back h p ta s3)
              = write_back h p ta (s3\<lparr>nextBitIndex := nextBitIndex s3 + bc\<rparr>)"
          using own by (simp add: set_nextBitIndex_write_back next_write_back)
        then show ?thesis
          unfolding heap_run s_def [symmetric] b_def [symmetric] val_run
          using True s3 by (simp add: or_at_heap_sim [OF o2] st2 wb2)
      qed
    qed
  qed
qed


lemma map_nth_upt: "n \<le> length xs \<Longrightarrow> map (\<lambda>k. xs ! k) [0..<n] = take n xs"
proof -
  assume n: "n \<le> length xs"
  have "take n xs = take n (map (\<lambda>k. xs ! k) [0..<length xs])" by (simp add: map_nth)
  also have "\<dots> = map (\<lambda>k. xs ! k) (take n [0..<length xs])" by (rule take_map)
  also have "take n [0..<length xs] = [0..<n]" using n by simp
  finally show ?thesis by simp
qed

lemma ensureSize_heap_realloc:
  assumes own: "owns h p ta" and small: "length (arrays h ! ta) \<le> n"
  shows "ensureSize_heap n p h =
           map_option (\<lambda>g. \<lparr>objects = (objects h)[p := (objects h ! p)\<lparr>objBackingStore := Some (length (arrays h))\<rparr>],
                             arrays = arrays h @ [copy_bytes (replicate g 0) (arrays h ! ta)]\<rparr>)
             (grow (length (arrays h ! ta)) n)"
proof -
  have st: "objBackingStore (objects h ! p) = Some ta" and ta: "ta < length (arrays h)"
    using own by (simp_all add: owns_def)
  show ?thesis
    unfolding ensureSize_heap_def st Let_def
    using small ta
    by (cases "grow (length (arrays h ! ta)) n")
       (simp_all add: heap_slice_def alloc_def copy_heap_def set_backingStore_def nth_append)
qed

lemma ensureSize_realloc:
  assumes own: "owns h p ta" and small: "length (arrays h ! ta) \<le> n"
  shows "ensureSize n (stream_at h p) =
           map_option (\<lambda>g. \<lparr>nextBitIndex = objNextBitIndex (objects h ! p),
                             backingStore = Some (copy_bytes (replicate g 0) (arrays h ! ta))\<rparr>)
             (grow (length (arrays h ! ta)) n)"
proof -
  have st: "objBackingStore (objects h ! p) = Some ta"
    using own by (simp add: owns_def)
  show ?thesis
    unfolding ensureSize_def using small
    by (cases "grow (length (arrays h ! ta)) n")
       (simp_all add: stream_at_def st slice_bytes_def)
qed


lemma AppendBits_heap_realloc:
  assumes own: "owns h p ta"
    and bv: "\<forall>ba. bits = Some ba \<longrightarrow> ba < length (arrays h)"
    and enough: "bytesNeededForBits sz \<le> length (heap_slice h bits)"
    and small: "length (arrays h ! ta) \<le> bytesNeededForBits (objNextBitIndex (objects h ! p) + sz)"
  shows "AppendBits_heap sz bits p h =
     map_option (\<lambda>(r, s1). (r, \<lparr>objects = (objects h)[p := \<lparr>objNextBitIndex = nextBitIndex s1,
                                                           objBackingStore = Some (length (arrays h))\<rparr>],
                                arrays = arrays h @ [slice_bytes (backingStore s1)]\<rparr>))
        (AppendBits sz (heap_slice h bits) (stream_at h p))"
proof -
  define s where "s = stream_at h p"
  define bs where "bs = heap_slice h bits"
  define N where "N = bytesNeededForBits (objNextBitIndex (objects h ! p) + sz)"
  define m where "m = length (arrays h)"
  have nx: "nextBitIndex s = objNextBitIndex (objects h ! p)" by (simp add: s_def stream_at_def)
  have pl: "p < length (objects h)" using own by (simp add: owns_def)
  have ge: "\<not> length bs < bytesNeededForBits sz" using enough by (simp add: bs_def)
  have eh: "ensureSize_heap N p h =
      map_option (\<lambda>g. \<lparr>objects = (objects h)[p := (objects h ! p)\<lparr>objBackingStore := Some m\<rparr>],
                        arrays = arrays h @ [copy_bytes (replicate g 0) (arrays h ! ta)]\<rparr>)
        (grow (length (arrays h ! ta)) N)"
    unfolding m_def N_def using own small by (rule ensureSize_heap_realloc)
  have es: "ensureSize N s =
      map_option (\<lambda>g. \<lparr>nextBitIndex = objNextBitIndex (objects h ! p),
                        backingStore = Some (copy_bytes (replicate g 0) (arrays h ! ta))\<rparr>)
        (grow (length (arrays h ! ta)) N)"
    unfolding s_def N_def using own small by (rule ensureSize_realloc)
  have hdef: "AppendBits_heap sz bits p h =
      (case ensureSize_heap N p h of
         None \<Rightarrow> None
       | Some h1 \<Rightarrow>
           (case appendFullBytes_heap (objNextBitIndex (objects h1 ! p) mod 8)
                   (8 - objNextBitIndex (objects h1 ! p) mod 8) bits [0..<sz div 8] p h1 of
              (Some e, h2) \<Rightarrow> Some (Some e, h2)
            | (None, h2) \<Rightarrow>
                if sz mod 8 \<noteq> 0
                then Some (appendLastByte_heap sz (8 - objNextBitIndex (objects h1 ! p) mod 8)
                             bits (sz div 8) p h2)
                else Some (None, h2)))"
    unfolding AppendBits_heap_def Let_def N_def using ge by (simp add: bs_def)
  have vdef: "AppendBits sz bs s =
      (case ensureSize N s of
         None \<Rightarrow> None
       | Some s1 \<Rightarrow>
           (case appendFullBytes (nextBitIndex s1 mod 8) (8 - nextBitIndex s1 mod 8)
                   (take (sz div 8) bs) s1 of
              (Some e, s2) \<Rightarrow> Some (Some e, s2)
            | (None, s2) \<Rightarrow>
                if sz mod 8 \<noteq> 0
                then Some (appendLastByte sz (8 - nextBitIndex s1 mod 8) (bs ! (sz div 8)) s2)
                else Some (None, s2)))"
    unfolding AppendBits_def Let_def N_def nx using ge by simp
  show ?thesis
  proof (cases "grow (length (arrays h ! ta)) N")
    case None
    then show ?thesis
      unfolding s_def [symmetric] bs_def [symmetric] hdef vdef eh es by simp
  next
    case (Some g)
    define h1 where "h1 = \<lparr>objects = (objects h)[p := (objects h ! p)\<lparr>objBackingStore := Some m\<rparr>],
                        arrays = arrays h @ [copy_bytes (replicate g 0) (arrays h ! ta)]\<rparr>"
    define s0 where "s0 = \<lparr>nextBitIndex = objNextBitIndex (objects h ! p),
                        backingStore = Some (copy_bytes (replicate g 0) (arrays h ! ta))\<rparr>"
    define off where "off = nextBitIndex s0 mod 8"
    define left where "left = 8 - off"
    define nf where "nf = sz div 8"
    have eh1: "ensureSize_heap N p h = Some h1" unfolding eh Some h1_def by simp
    have es1: "ensureSize N s = Some s0" unfolding es Some s0_def by simp
    have o1: "owns h1 p m" using pl by (simp add: owns_def h1_def m_def)
    have st1: "stream_at h1 p = s0" using pl by (simp add: stream_at_def h1_def s0_def m_def)
    have n1: "objNextBitIndex (objects h1 ! p) = nextBitIndex s0"
      using pl by (simp add: h1_def s0_def)
    have na: "\<forall>ba. bits = Some ba \<longrightarrow> ba \<noteq> m" using bv by (auto simp add: m_def)
    have sl1: "heap_slice h1 bits = bs"
      using bv by (auto simp add: heap_slice_def h1_def bs_def nth_append split: option.splits)
    have nfl: "nf \<le> length bs" using ge by (simp add: bytesNeededForBits_def nf_def Let_def split: if_splits)
    obtain r2 s2 where full: "appendFullBytes off left (take nf bs) s0 = (r2, s2)"
      by (cases "appendFullBytes off left (take nf bs) s0")
    have rd: "map (\<lambda>k. heap_slice h1 bits ! k) [0..<nf] = take nf bs"
      unfolding sl1 using nfl by (rule map_nth_upt)
    have hfull: "appendFullBytes_heap off left bits [0..<nf] p h1 = (r2, write_back h1 p m s2)"
      unfolding appendFullBytes_heap_sim [OF o1 na] rd st1 full by simp
    have "backingStore s0 \<noteq> None" by (simp add: s0_def)
    then have "backingStore (snd (appendFullBytes off left (take nf bs) s0)) \<noteq> None"
      by (rule appendFullBytes_store)
    then have b2: "backingStore s2 \<noteq> None" by (simp add: full)
    have o2: "owns (write_back h1 p m s2) p m" using o1 by (rule owns_write_back)
    have st2: "stream_at (write_back h1 p m s2) p = s2" using o1 b2 by (rule stream_at_write_back)
    have sl2: "heap_slice (write_back h1 p m s2) bits = bs"
      unfolding heap_slice_write_back [OF na] by (rule sl1)
    have last: "appendLastByte_heap sz left bits nf p (write_back h1 p m s2) =
        (case appendLastByte sz left (bs ! nf) s2 of (r, s3) \<Rightarrow> (r, write_back h1 p m s3))"
      unfolding appendLastByte_heap_sim [OF o2 na] sl2 st2 write_back_twice by (rule refl)
    have fin: "write_back h1 p m x =
        \<lparr>objects = (objects h)[p := \<lparr>objNextBitIndex = nextBitIndex x, objBackingStore = Some m\<rparr>],
         arrays = arrays h @ [slice_bytes (backingStore x)]\<rparr>" for x
      by (simp add: write_back_def h1_def m_def)
    have hrun: "AppendBits_heap sz bits p h =
        (case r2 of
           Some e \<Rightarrow> Some (Some e, write_back h1 p m s2)
         | None \<Rightarrow>
             if sz mod 8 \<noteq> 0
             then Some (case appendLastByte sz left (bs ! nf) s2 of
                          (r, s3) \<Rightarrow> (r, write_back h1 p m s3))
             else Some (None, write_back h1 p m s2))"
      unfolding hdef eh1 option.case n1 off_def [symmetric] left_def [symmetric]
        nf_def [symmetric] hfull last [symmetric]
      by (simp split: option.splits)
    have vrun: "AppendBits sz bs s =
        (case r2 of
           Some e \<Rightarrow> Some (Some e, s2)
         | None \<Rightarrow>
             if sz mod 8 \<noteq> 0
             then Some (appendLastByte sz left (bs ! nf) s2)
             else Some (None, s2))"
      unfolding vdef es1 option.case off_def [symmetric] left_def [symmetric]
        nf_def [symmetric] full
      by (simp split: option.splits)
    show ?thesis
      unfolding s_def [symmetric] bs_def [symmetric] hrun vrun m_def [symmetric]
      by (cases "appendLastByte sz left (bs ! nf) s2") (simp add: fin split: option.splits)
  qed
qed


lemma Concat_heap_sim:
  assumes va: "valid_ref h a" and vb: "valid_ref h b"
    and enough: "bytesNeededForBits (Size (stream_at h b))
                   \<le> length (slice_bytes (backingStore (stream_at h b)))"
  shows "Concat_heap a b h =
     (case AppendBits (Size (stream_at h b)) (slice_bytes (backingStore (stream_at h b)))
             \<lparr>nextBitIndex = nextBitIndex (stream_at h a),
              backingStore = Some (copy_bytes
                 (replicate (bytesNeededForBits (Size (stream_at h a) + Size (stream_at h b))) 0)
                 (slice_bytes (backingStore (stream_at h a))))\<rparr> of
        None \<Rightarrow> None
      | Some (r, s1) \<Rightarrow>
          Some (case r of Some e \<Rightarrow> Inl e | None \<Rightarrow> Inr (length (objects h)),
                \<lparr>objects = objects h @ [\<lparr>objNextBitIndex = nextBitIndex s1,
                                          objBackingStore = Some (length (arrays h) + 1)\<rparr>],
                 arrays = arrays h @
                   [copy_bytes
                      (replicate (bytesNeededForBits (Size (stream_at h a) + Size (stream_at h b))) 0)
                      (slice_bytes (backingStore (stream_at h a))),
                    slice_bytes (backingStore s1)]\<rparr>))"
proof -
  define n where "n = length (objects h)"
  define m where "m = length (arrays h)"
  define N where "N = bytesNeededForBits (Size (stream_at h a) + Size (stream_at h b))"
  define c where "c = copy_bytes (replicate N 0) (slice_bytes (backingStore (stream_at h a)))"
  define h5 where "h5 = \<lparr>objects = objects h @ [\<lparr>objNextBitIndex = nextBitIndex (stream_at h a),
                                                 objBackingStore = Some m\<rparr>],
                        arrays = arrays h @ [c]\<rparr>"
  have al: "a < n" and bl: "b < n" using va vb by (simp_all add: valid_ref_def n_def)
  have sa: "heap_slice h (objBackingStore (objects h ! a)) = slice_bytes (backingStore (stream_at h a))"
    by (simp add: heap_slice_def stream_at_def slice_bytes_def split: option.splits)
  have sb: "heap_slice h (objBackingStore (objects h ! b)) = slice_bytes (backingStore (stream_at h b))"
    by (simp add: heap_slice_def stream_at_def slice_bytes_def split: option.splits)
  have na: "objNextBitIndex (objects h ! a) = nextBitIndex (stream_at h a)"
    and nb: "objNextBitIndex (objects h ! b) = nextBitIndex (stream_at h b)"
    by (simp_all add: stream_at_def)
  have bm: "\<forall>ba. objBackingStore (objects h ! b) = Some ba \<longrightarrow> ba < m"
    using vb by (auto simp add: valid_ref_def m_def split: option.splits)
  have am: "\<forall>ba. objBackingStore (objects h ! a) = Some ba \<longrightarrow> ba < m"
    using va by (auto simp add: valid_ref_def m_def split: option.splits)
  have unf: "Concat_heap a b h =
      (case AppendBits_heap (nextBitIndex (stream_at h b)) (objBackingStore (objects h ! b)) n h5 of
         None \<Rightarrow> None
       | Some (Some e, h6) \<Rightarrow> Some (Inl e, h6)
       | Some (None, h6) \<Rightarrow> Some (Inr n, h6))"
    using al bl am unfolding h5_def c_def N_def n_def m_def
    by (cases h)
       (auto simp add: Concat_heap_def Let_def alloc_def set_backingStore_def copy_heap_def
          set_nextBitIndex_def AppendBitstream_heap_def nth_append heap_slice_def stream_at_def
          slice_bytes_def Size_def split: option.splits)
  have o5: "owns h5 n m" by (simp add: owns_def h5_def n_def m_def)
  have bv: "\<forall>ba. objBackingStore (objects h ! b) = Some ba \<longrightarrow> ba < length (arrays h5)"
    using bm by (auto simp add: h5_def m_def)
  have sl5: "heap_slice h5 (objBackingStore (objects h ! b)) = slice_bytes (backingStore (stream_at h b))"
    using bm unfolding sb [symmetric]
    by (auto simp add: heap_slice_def h5_def nth_append m_def split: option.splits)
  have en5: "bytesNeededForBits (nextBitIndex (stream_at h b))
               \<le> length (heap_slice h5 (objBackingStore (objects h ! b)))"
    unfolding sl5 using enough by (simp add: Size_def)
  have lc: "length c = N" by (simp add: c_def length_copy_bytes)
  have st5: "stream_at h5 n = \<lparr>nextBitIndex = nextBitIndex (stream_at h a), backingStore = Some c\<rparr>"
    by (simp add: stream_at_def h5_def n_def m_def)
  have sm5: "length (arrays h5 ! m)
               \<le> bytesNeededForBits (objNextBitIndex (objects h5 ! n) + nextBitIndex (stream_at h b))"
    by (simp add: h5_def m_def n_def lc N_def Size_def)
  have run: "AppendBits_heap (nextBitIndex (stream_at h b)) (objBackingStore (objects h ! b)) n h5 =
      map_option (\<lambda>(r, s1). (r, \<lparr>objects = (objects h5)[n := \<lparr>objNextBitIndex = nextBitIndex s1,
                                                           objBackingStore = Some (length (arrays h5))\<rparr>],
                                arrays = arrays h5 @ [slice_bytes (backingStore s1)]\<rparr>))
        (AppendBits (nextBitIndex (stream_at h b)) (slice_bytes (backingStore (stream_at h b)))
           \<lparr>nextBitIndex = nextBitIndex (stream_at h a), backingStore = Some c\<rparr>)"
    using AppendBits_heap_realloc [OF o5 bv en5 sm5] unfolding sl5 st5 .
  show ?thesis
    unfolding unf run
    by (simp add: h5_def n_def m_def c_def N_def Size_def split: option.splits)
qed



section \<open>Concat in the heap\<close>

lemma stream_at_extend:
  assumes "valid_ref h p"
  shows "stream_at \<lparr>objects = objects h @ os, arrays = arrays h @ ars\<rparr> p = stream_at h p"
  using assms by (auto simp add: valid_ref_def stream_at_def nth_append split: option.splits)

text \<open>
  Claim C10. \<open>a\<close> and \<open>b\<close> are references to streams of a heap \<open>h\<close>, reachable and not both
  empty; they may be one stream. \<open>Concat(a, b)\<close> returns a reference to a new object, the
  one after the objects of \<open>h\<close>. Its stream has \<open>Size a + Size b\<close> bits: the bits of \<open>a\<close> at
  the indices below \<open>Size a\<close>, then the bits of \<open>b\<close>; it is the stream value of \<open>Concat\<close> in
  the first model. In the heap \<open>h'\<close> after the call every object and every array of \<open>h\<close> is
  what it was, so \<open>a\<close> and \<open>b\<close> are the streams they were, in size and in every stored bit.
\<close>

theorem Concat_appends:
  assumes va: "valid_ref h a" and vb: "valid_ref h b"
    and ra: "reachable (stream_at h a)" and rb: "reachable (stream_at h b)"
    and pos: "0 < Size (stream_at h a) + Size (stream_at h b)"
  shows "\<exists>h'. Concat_heap a b h = Some (Inr (length (objects h)), h')
           \<and> Concat (stream_at h a) (stream_at h b) = Some (Inr (stream_at h' (length (objects h))))
           \<and> take (length (objects h)) (objects h') = objects h
           \<and> take (length (arrays h)) (arrays h') = arrays h
           \<and> stream_at h' a = stream_at h a \<and> stream_at h' b = stream_at h b
           \<and> Size (stream_at h' (length (objects h))) = Size (stream_at h a) + Size (stream_at h b)
           \<and> (\<forall>j<Size (stream_at h a).
                  BitAt (stream_at h' (length (objects h))) j = BitAt (stream_at h' a) j
                  \<and> BitAt (stream_at h' a) j
                      = Inr (msb_bit (slice_bytes (backingStore (stream_at h a))) j))
           \<and> (\<forall>j<Size (stream_at h b).
                  BitAt (stream_at h' (length (objects h))) (Size (stream_at h a) + j)
                    = BitAt (stream_at h' b) j
                  \<and> BitAt (stream_at h' b) j
                      = Inr (msb_bit (slice_bytes (backingStore (stream_at h b))) j))"
proof -
  define A where "A = stream_at h a"
  define B where "B = stream_at h b"
  define c where "c = copy_bytes (replicate (bytesNeededForBits (Size A + Size B)) 0)
                        (slice_bytes (backingStore A))"
  have wb: "wellformed B" using rb unfolding B_def by (rule reachable_wellformed)
  have enough: "bytesNeededForBits (Size B) \<le> length (slice_bytes (backingStore B))"
    using wellformed_covers [OF wb] by (simp add: bytesNeeded_le_iff Size_def)
  obtain r where run: "Concat A B = Some (Inr r)" and sz: "Size r = Size A + Size B"
    and old: "\<forall>j<Size A. BitAt r j = BitAt A j
                \<and> BitAt A j = Inr (msb_bit (slice_bytes (backingStore A)) j)"
    and new: "\<forall>j<Size B. BitAt r (Size A + j) = BitAt B j
                \<and> BitAt B j = Inr (msb_bit (slice_bytes (backingStore B)) j)"
    using Concat_result [OF ra rb pos] unfolding A_def B_def by blast
  have wr: "backingStore r \<noteq> None"
  proof -
    obtain r0 where "Concat A B = Some (Inr r0)" and "wellformed r0"
      using Concat_spec [OF reachable_wellformed [OF ra] reachable_wellformed [OF rb] pos]
      unfolding A_def B_def by blast
    then show ?thesis
      using run sz pos unfolding A_def [symmetric] B_def [symmetric]
      by (auto simp add: wellformed_def Size_def split: option.splits)
  qed
  have app: "AppendBits (Size B) (slice_bytes (backingStore B))
               \<lparr>nextBitIndex = nextBitIndex A, backingStore = Some c\<rparr> = Some (None, r)"
    using run unfolding Concat_unfold c_def
    by (auto split: option.splits prod.splits)
  define h' where "h' = \<lparr>objects = objects h @ [\<lparr>objNextBitIndex = nextBitIndex r,
                                                 objBackingStore = Some (length (arrays h) + 1)\<rparr>],
                        arrays = arrays h @ [c, slice_bytes (backingStore r)]\<rparr>"
  have ch: "Concat_heap a b h = Some (Inr (length (objects h)), h')"
    unfolding Concat_heap_sim [OF va vb enough [unfolded B_def]]
      A_def [symmetric] B_def [symmetric] c_def [symmetric] app h'_def
    by simp
  have res: "stream_at h' (length (objects h)) = r"
    using wr by (auto simp add: stream_at_def h'_def slice_bytes_def nth_append)
  have sa: "stream_at h' a = A" unfolding h'_def A_def using va by (rule stream_at_extend)
  have sb: "stream_at h' b = B" unfolding h'_def B_def using vb by (rule stream_at_extend)
  have fo: "take (length (objects h)) (objects h') = objects h" by (simp add: h'_def)
  have fa: "take (length (arrays h)) (arrays h') = arrays h" by (simp add: h'_def)
  show ?thesis
    using ch run sz old new fo fa
    unfolding A_def [symmetric] B_def [symmetric]
    by (intro exI [of _ h']) (simp add: res sa sb)
qed

theorem Concat_appends_witness:
  "valid_ref \<lparr>objects = [\<lparr>objNextBitIndex = 3, objBackingStore = Some 0\<rparr>,
                          \<lparr>objNextBitIndex = 120, objBackingStore = Some 1\<rparr>],
              arrays = [[0xE0, 0, 0, 0, 0, 0, 0, 0, 0, 0, 0, 0, 0, 0, 0, 0],
                        replicate 15 0xFF @ [0]]\<rparr> 0
   \<and> valid_ref \<lparr>objects = [\<lparr>objNextBitIndex = 3, objBackingStore = Some 0\<rparr>,
                          \<lparr>objNextBitIndex = 120, objBackingStore = Some 1\<rparr>],
              arrays = [[0xE0, 0, 0, 0, 0, 0, 0, 0, 0, 0, 0, 0, 0, 0, 0, 0],
                        replicate 15 0xFF @ [0]]\<rparr> 1
   \<and> reachable \<lparr>nextBitIndex = 3,
               backingStore = Some [0xE0, 0, 0, 0, 0, 0, 0, 0, 0, 0, 0, 0, 0, 0, 0, 0]\<rparr>
   \<and> reachable \<lparr>nextBitIndex = 120, backingStore = Some (replicate 15 0xFF @ [0])\<rparr>
   \<and> (\<exists>h'. Concat_heap 0 1
              \<lparr>objects = [\<lparr>objNextBitIndex = 3, objBackingStore = Some 0\<rparr>,
                          \<lparr>objNextBitIndex = 120, objBackingStore = Some 1\<rparr>],
               arrays = [[0xE0, 0, 0, 0, 0, 0, 0, 0, 0, 0, 0, 0, 0, 0, 0, 0],
                         replicate 15 0xFF @ [0]]\<rparr> = Some (Inr 2, h')
          \<and> take 2 (objects h') = [\<lparr>objNextBitIndex = 3, objBackingStore = Some 0\<rparr>,
                                    \<lparr>objNextBitIndex = 120, objBackingStore = Some 1\<rparr>]
          \<and> take 2 (arrays h') = [[0xE0, 0, 0, 0, 0, 0, 0, 0, 0, 0, 0, 0, 0, 0, 0, 0],
                                   replicate 15 0xFF @ [0]]
          \<and> Size (stream_at h' 2) = 123
          \<and> BitAt (stream_at h' 2) 2 = Inr 1 \<and> BitAt (stream_at h' 2) (3 + 119) = Inr 1)"
proof -
  let ?H = "\<lparr>objects = [\<lparr>objNextBitIndex = 3, objBackingStore = Some 0\<rparr>,
                         \<lparr>objNextBitIndex = 120, objBackingStore = Some 1\<rparr>],
             arrays = [[0xE0, 0, 0, 0, 0, 0, 0, 0, 0, 0, 0, 0, 0, 0, 0, 0 :: byte],
                       replicate 15 (0xFF :: byte) @ [0]]\<rparr>"
  let ?A = "\<lparr>nextBitIndex = 3,
             backingStore = Some [0xE0, 0, 0, 0, 0, 0, 0, 0, 0, 0, 0, 0, 0, 0, 0, 0 :: byte]\<rparr>"
  let ?B = "\<lparr>nextBitIndex = 120, backingStore = Some (replicate 15 (0xFF :: byte) @ [0])\<rparr>"
  have sa: "stream_at ?H 0 = ?A" and sb: "stream_at ?H 1 = ?B"
    by (simp_all add: stream_at_def)
  have va: "valid_ref ?H 0" and vb: "valid_ref ?H 1" by (simp_all add: valid_ref_def)
  have ra: "reachable (stream_at ?H 0)" unfolding sa by (rule reachable_three_bits)
  have rb: "reachable (stream_at ?H 1)" unfolding sb by (rule reachable_fifteen_bytes)
  have pos: "0 < Size (stream_at ?H 0) + Size (stream_at ?H 1)"
    by (simp add: Size_def stream_at_def)
  have ln: "length (objects ?H) = 2" "length (arrays ?H) = 2" "Size ?A = 3" "Size ?B = 120"
    by (simp_all add: Size_def)
  obtain h' where run: "Concat_heap 0 1 ?H = Some (Inr 2, h')"
    and fo0: "take 2 (objects h') = objects ?H"
    and fa0: "take 2 (arrays h') = arrays ?H"
    and ea: "stream_at h' 0 = ?A" and eb: "stream_at h' 1 = ?B"
    and sz: "Size (stream_at h' 2) = 3 + 120"
    and old: "\<forall>j<3. BitAt (stream_at h' 2) j = BitAt (stream_at h' 0) j
                \<and> BitAt (stream_at h' 0) j = Inr (msb_bit (slice_bytes (backingStore ?A)) j)"
    and new: "\<forall>j<120. BitAt (stream_at h' 2) (3 + j) = BitAt (stream_at h' 1) j
                \<and> BitAt (stream_at h' 1) j = Inr (msb_bit (slice_bytes (backingStore ?B)) j)"
    using Concat_appends [OF va vb ra rb pos] unfolding sa sb ln by blast
  have less: "(2 :: nat) < 3" "(119 :: nat) < 120" by simp_all
  have "BitAt (stream_at h' 2) 2 = BitAt (stream_at h' 0) 2"
    using old less(1) by blast
  moreover have "BitAt ?A 2 = Inr 1" by code_simp
  moreover have "BitAt (stream_at h' 2) (3 + 119) = BitAt (stream_at h' 1) 119"
    using new less(2) by blast
  moreover have "BitAt ?B 119 = Inr 1" by code_simp
  ultimately have bits: "BitAt (stream_at h' 2) 2 = Inr 1"
    "BitAt (stream_at h' 2) (3 + 119) = Inr 1" unfolding ea eb by simp_all
  have s3: "Size (stream_at h' 2) = 123" using sz by simp
  have fo: "take 2 (objects h') = [\<lparr>objNextBitIndex = 3, objBackingStore = Some 0\<rparr>,
                                   \<lparr>objNextBitIndex = 120, objBackingStore = Some 1\<rparr>]"
    and fa: "take 2 (arrays h') = [[0xE0, 0, 0, 0, 0, 0, 0, 0, 0, 0, 0, 0, 0, 0, 0, 0],
                                   replicate 15 0xFF @ [0]]"
    using fo0 fa0 by simp_all
  show ?thesis
    using va vb reachable_three_bits reachable_fifteen_bytes run fo fa s3 bits by blast
qed

section \<open>Contract violations\<close>

text \<open>
  Claim C6. Each contract violation ends the call by a panic and changes nothing. A
  mutating call returns its receiver as it went in, and \<open>AppendBits\<close> in the heap returns
  the heap it was given. The accessors \<open>UintAt\<close>, \<open>BitAt\<close>, \<open>BitsAt\<close> and \<open>MarshalBase32\<close>,
  called on the stream at \<open>p\<close> of a heap \<open>h\<close>, end by the panic of their check and leave
  \<open>h\<close>. The check of \<open>BitsAt\<close> is on the sum \<open>index+size\<close> of the code, which wraps; for
  \<open>uint\<close> arguments whose true sum is past the end of the stream the call ends by a panic
  all the same, of the check, of \<open>make\<close> or of \<open>BitAt\<close>, and every object and every array
  of \<open>h\<close> is unchanged. For \<open>AppendBigInt\<close> \<open>nbits\<close> is any \<open>uint\<close>.
\<close>

theorem contract_violations:
  "(length bits < bytesNeededForBits sz \<longrightarrow> AppendBits sz bits s = Some (Some TooFewBytes, s))
   \<and> (length (heap_slice h hb) < bytesNeededForBits hsz \<longrightarrow>
         AppendBits_heap hsz hb p h = Some (Some TooFewBytes, h))
   \<and> (64 < usz \<longrightarrow> AppendUint v usz s = Some (Some SizeOutOfRange, s))
   \<and> (vsz \<le> 64 \<and> (\<exists>k\<ge>vsz. bit w k) \<longrightarrow> AppendUint w vsz s = Some (Some ValueLargerThanSize, s))
   \<and> (64 < rsz \<longrightarrow> UintAt (stream_at h p) idx rsz = Inl SizeTooBig
                  \<and> UintAt_heap idx rsz p h = (Inl SizeTooBig, h))
   \<and> (Size (stream_at h p) \<le> ib \<longrightarrow> BitAt (stream_at h p) ib = Inl IndexOutOfBounds
                  \<and> BitAt_heap ib p h = (Inl IndexOutOfBounds, h))
   \<and> (Size (stream_at h p) < uint_add ibs bsz \<longrightarrow>
         BitsAt (stream_at h p) ibs bsz = Inl IndexOutOfBounds
         \<and> BitsAt_heap ibs bsz p h = (Inl IndexOutOfBounds, h))
   \<and> (iw < 2 ^ 64 \<and> Size (stream_at h p) < 2 ^ 64 \<and> Size (stream_at h p) < iw + bw \<longrightarrow>
         (\<exists>e h'. BitsAt_heap iw bw p h = (Inl e, h') \<and> unchanged h h'))
   \<and> (b \<noteq> 0 \<and> b \<noteq> 1 \<longrightarrow> AppendBit b s = Some (Some BitNotZeroOrOne, s))
   \<and> (nbits < 2 ^ 64 \<and> nbits < BitLen x \<longrightarrow>
         AppendBigInt x nbits s = Some (Some ValueTooBigForBits, s))
   \<and> (Size (stream_at h p) mod 5 \<noteq> 0 \<longrightarrow>
         MarshalBase32 (stream_at h p) = Inl NotMultipleOfFive
         \<and> MarshalBase32_heap p h = Some (Inl NotMultipleOfFive, h))"
proof (intro conjI impI)
  show "AppendBits sz bits s = Some (Some TooFewBytes, s)" if "length bits < bytesNeededForBits sz"
    using that by (rule AppendBits_TooFew)
  show "AppendBits_heap hsz hb p h = Some (Some TooFewBytes, h)"
    if "length (heap_slice h hb) < bytesNeededForBits hsz"
    using that by (simp add: AppendBits_heap_def)
  show "AppendUint v usz s = Some (Some SizeOutOfRange, s)" if "64 < usz"
    using that by (simp add: AppendUint_def)
  show "AppendUint w vsz s = Some (Some ValueLargerThanSize, s)"
    if "vsz \<le> 64 \<and> (\<exists>k\<ge>vsz. bit w k)"
  proof -
    have "w AND (push_bit vsz 1 - 1) \<noteq> w"
      unfolding AppendUint_value_check using that by blast
    then show ?thesis using that unfolding AppendUint_def Let_def by simp
  qed
  show "UintAt (stream_at h p) idx rsz = Inl SizeTooBig" if "64 < rsz"
    using that by (simp add: UintAt_def)
  show "UintAt_heap idx rsz p h = (Inl SizeTooBig, h)" if "64 < rsz"
    using that by (simp add: UintAt_heap_def)
  show "BitAt (stream_at h p) ib = Inl IndexOutOfBounds" if "Size (stream_at h p) \<le> ib"
    using that by (simp add: BitAt_def Size_def)
  show "BitAt_heap ib p h = (Inl IndexOutOfBounds, h)" if "Size (stream_at h p) \<le> ib"
    using that by (simp add: BitAt_heap_def Size_def stream_at_def)
  show "BitsAt (stream_at h p) ibs bsz = Inl IndexOutOfBounds"
    if "Size (stream_at h p) < uint_add ibs bsz"
    using that by (simp add: BitsAt_def Size_def)
  show "BitsAt_heap ibs bsz p h = (Inl IndexOutOfBounds, h)"
    if "Size (stream_at h p) < uint_add ibs bsz"
    using that by (simp add: BitsAt_heap_def Size_def stream_at_def)
  show "\<exists>e h'. BitsAt_heap iw bw p h = (Inl e, h') \<and> unchanged h h'"
    if "iw < 2 ^ 64 \<and> Size (stream_at h p) < 2 ^ 64 \<and> Size (stream_at h p) < iw + bw"
    using that by (intro BitsAt_heap_violation) (simp_all add: Size_def stream_at_def)
  show "AppendBit b s = Some (Some BitNotZeroOrOne, s)" if "b \<noteq> 0 \<and> b \<noteq> 1"
    using that by (simp add: AppendBit_def)
  show "AppendBigInt x nbits s = Some (Some ValueTooBigForBits, s)"
    if "nbits < 2 ^ 64 \<and> nbits < BitLen x"
  proof (cases "nbits < 2 ^ 63")
    case True
    then show ?thesis using that by (simp add: AppendBigInt_def int_of_uint_small)
  next
    case False
    then have "int_of_uint nbits < 0" using that by (intro int_of_uint_negative) simp_all
    then have "int_of_uint nbits < int (BitLen x)" by simp
    then show ?thesis by (simp add: AppendBigInt_def)
  qed
  show "MarshalBase32 (stream_at h p) = Inl NotMultipleOfFive"
    if "Size (stream_at h p) mod 5 \<noteq> 0"
    using that by (simp add: MarshalBase32_def)
  show "MarshalBase32_heap p h = Some (Inl NotMultipleOfFive, h)"
    if "Size (stream_at h p) mod 5 \<noteq> 0"
    using that by (simp add: MarshalBase32_heap_def Size_def stream_at_def)
qed

theorem contract_violations_witness:
  "length ([] :: byte list) < bytesNeededForBits 1
   \<and> AppendBits 1 [] emptyBitStream = Some (Some TooFewBytes, emptyBitStream)
   \<and> length (heap_slice \<lparr>objects = [\<lparr>objNextBitIndex = 3, objBackingStore = Some 0\<rparr>],
                          arrays = [[0xE0, 0, 0, 0, 0, 0, 0, 0, 0, 0, 0, 0, 0, 0, 0, 0]]\<rparr> None)
       < bytesNeededForBits 1
   \<and> AppendBits_heap 1 None 0
        \<lparr>objects = [\<lparr>objNextBitIndex = 3, objBackingStore = Some 0\<rparr>],
         arrays = [[0xE0, 0, 0, 0, 0, 0, 0, 0, 0, 0, 0, 0, 0, 0, 0, 0]]\<rparr>
       = Some (Some TooFewBytes,
               \<lparr>objects = [\<lparr>objNextBitIndex = 3, objBackingStore = Some 0\<rparr>],
                arrays = [[0xE0, 0, 0, 0, 0, 0, 0, 0, 0, 0, 0, 0, 0, 0, 0, 0]]\<rparr>)
   \<and> (64 :: nat) < 65
   \<and> AppendUint 0 65 emptyBitStream = Some (Some SizeOutOfRange, emptyBitStream)
   \<and> (2 :: nat) \<le> 64 \<and> (\<exists>k\<ge>2. bit (4 :: uint64) k)
   \<and> AppendUint 4 2 emptyBitStream = Some (Some ValueLargerThanSize, emptyBitStream)
   \<and> UintAt_heap 0 65 0
        \<lparr>objects = [\<lparr>objNextBitIndex = 3, objBackingStore = Some 0\<rparr>],
         arrays = [[0xE0, 0, 0, 0, 0, 0, 0, 0, 0, 0, 0, 0, 0, 0, 0, 0]]\<rparr>
       = (Inl SizeTooBig,
          \<lparr>objects = [\<lparr>objNextBitIndex = 3, objBackingStore = Some 0\<rparr>],
           arrays = [[0xE0, 0, 0, 0, 0, 0, 0, 0, 0, 0, 0, 0, 0, 0, 0, 0]]\<rparr>)
   \<and> Size (stream_at \<lparr>objects = [\<lparr>objNextBitIndex = 3, objBackingStore = Some 0\<rparr>],
                       arrays = [[0xE0, 0, 0, 0, 0, 0, 0, 0, 0, 0, 0, 0, 0, 0, 0, 0]]\<rparr> 0) \<le> 3
   \<and> BitAt_heap 3 0
        \<lparr>objects = [\<lparr>objNextBitIndex = 3, objBackingStore = Some 0\<rparr>],
         arrays = [[0xE0, 0, 0, 0, 0, 0, 0, 0, 0, 0, 0, 0, 0, 0, 0, 0]]\<rparr>
       = (Inl IndexOutOfBounds,
          \<lparr>objects = [\<lparr>objNextBitIndex = 3, objBackingStore = Some 0\<rparr>],
           arrays = [[0xE0, 0, 0, 0, 0, 0, 0, 0, 0, 0, 0, 0, 0, 0, 0, 0]]\<rparr>)
   \<and> Size (stream_at \<lparr>objects = [\<lparr>objNextBitIndex = 3, objBackingStore = Some 0\<rparr>],
                       arrays = [[0xE0, 0, 0, 0, 0, 0, 0, 0, 0, 0, 0, 0, 0, 0, 0, 0]]\<rparr> 0)
       < uint_add 2 2
   \<and> BitsAt_heap 2 2 0
        \<lparr>objects = [\<lparr>objNextBitIndex = 3, objBackingStore = Some 0\<rparr>],
         arrays = [[0xE0, 0, 0, 0, 0, 0, 0, 0, 0, 0, 0, 0, 0, 0, 0, 0]]\<rparr>
       = (Inl IndexOutOfBounds,
          \<lparr>objects = [\<lparr>objNextBitIndex = 3, objBackingStore = Some 0\<rparr>],
           arrays = [[0xE0, 0, 0, 0, 0, 0, 0, 0, 0, 0, 0, 0, 0, 0, 0, 0]]\<rparr>)
   \<and> (1 :: nat) < 2 ^ 64
   \<and> Size (stream_at \<lparr>objects = [\<lparr>objNextBitIndex = 3, objBackingStore = Some 0\<rparr>],
                       arrays = [[0xE0, 0, 0, 0, 0, 0, 0, 0, 0, 0, 0, 0, 0, 0, 0, 0]]\<rparr> 0)
       < 1 + (2 ^ 64 - 1)
   \<and> (\<exists>e h'. BitsAt_heap 1 (2 ^ 64 - 1) 0
                \<lparr>objects = [\<lparr>objNextBitIndex = 3, objBackingStore = Some 0\<rparr>],
                 arrays = [[0xE0, 0, 0, 0, 0, 0, 0, 0, 0, 0, 0, 0, 0, 0, 0, 0]]\<rparr> = (Inl e, h')
          \<and> unchanged \<lparr>objects = [\<lparr>objNextBitIndex = 3, objBackingStore = Some 0\<rparr>],
                        arrays = [[0xE0, 0, 0, 0, 0, 0, 0, 0, 0, 0, 0, 0, 0, 0, 0, 0]]\<rparr> h')
   \<and> (2 :: byte) \<noteq> 0 \<and> (2 :: byte) \<noteq> 1
   \<and> AppendBit 2 emptyBitStream = Some (Some BitNotZeroOrOne, emptyBitStream)
   \<and> (3 :: nat) < 2 ^ 64 \<and> 3 < BitLen 8
   \<and> AppendBigInt 8 3 emptyBitStream = Some (Some ValueTooBigForBits, emptyBitStream)
   \<and> Size (stream_at \<lparr>objects = [\<lparr>objNextBitIndex = 3, objBackingStore = Some 0\<rparr>],
                       arrays = [[0xE0, 0, 0, 0, 0, 0, 0, 0, 0, 0, 0, 0, 0, 0, 0, 0]]\<rparr> 0) mod 5 \<noteq> 0
   \<and> MarshalBase32_heap 0
        \<lparr>objects = [\<lparr>objNextBitIndex = 3, objBackingStore = Some 0\<rparr>],
         arrays = [[0xE0, 0, 0, 0, 0, 0, 0, 0, 0, 0, 0, 0, 0, 0, 0, 0]]\<rparr>
       = Some (Inl NotMultipleOfFive,
               \<lparr>objects = [\<lparr>objNextBitIndex = 3, objBackingStore = Some 0\<rparr>],
                arrays = [[0xE0, 0, 0, 0, 0, 0, 0, 0, 0, 0, 0, 0, 0, 0, 0, 0]]\<rparr>)"
proof -
  let ?H = "\<lparr>objects = [\<lparr>objNextBitIndex = 3, objBackingStore = Some 0\<rparr>],
             arrays = [[0xE0, 0, 0, 0, 0, 0, 0, 0, 0, 0, 0, 0, 0, 0, 0, 0 :: byte]]\<rparr>"
  have sz: "Size (stream_at ?H 0) = 3" by (simp add: Size_def stream_at_def)
  have h: "length ([] :: byte list) < bytesNeededForBits 1"
    "length (heap_slice ?H None) < bytesNeededForBits 1" "(64 :: nat) < 65"
    "(2 :: nat) \<le> 64 \<and> (\<exists>k\<ge>2. bit (4 :: uint64) k)"
    "Size (stream_at ?H 0) \<le> 3" "Size (stream_at ?H 0) < uint_add 2 2"
    "(1 :: nat) < 2 ^ 64 \<and> Size (stream_at ?H 0) < 2 ^ 64
       \<and> Size (stream_at ?H 0) < 1 + (2 ^ 64 - 1)"
    "(2 :: byte) \<noteq> 0 \<and> (2 :: byte) \<noteq> 1" "(3 :: nat) < 2 ^ 64 \<and> 3 < BitLen 8"
    "Size (stream_at ?H 0) mod 5 \<noteq> 0"
    unfolding sz
    by (simp_all add: bytesNeededForBits_def heap_slice_def uint_add_def BitLen_eight)
       (rule exI [of _ 2], simp)
  show ?thesis
    using h
      contract_violations [where bits = "[]" and sz = 1 and usz = 65 and v = 0 and w = 4
        and vsz = 2 and s = emptyBitStream and rsz = 65 and idx = 0 and ib = 3 and ibs = 2
        and bsz = 2 and b = 2 and x = 8 and nbits = 3 and h = ?H and p = 0 and hb = None
        and hsz = 1 and iw = 1 and bw = "2 ^ 64 - 1"]
    by blast
qed


end
